theory Spec2Isabelle
  imports Main "HOL-Library.AList"
begin

section \<open>Go types, interface values and registry keys\<close>

text \<open>
  The package routes values by their static Go type. A type is a type literal (a basic
  type, a pointer, channel, slice, map, function, array, struct or interface type) or a
  defined type \<open>type N U\<close>, which has a name and an underlying type. Two defined types
  with different names are different types.

  A method is identified by its name together with its signature, written as one string.
  Method sets follow the Go specification. A defined type carries the method set of the
  type itself (the methods declared with a value receiver, and those promoted to it) and
  the further methods that only the pointer to it has (those declared with a pointer
  receiver). A struct literal carries the same two lists for the methods promoted from its
  embedded fields. An interface literal carries the methods it asks for. A type whose
  underlying type is a pointer or an interface cannot be a receiver; every other type
  literal has no methods.
\<close>

datatype gotype =
    Basic string
  | Pointer gotype
  | Chan gotype
  | Slice gotype
  | MapT gotype gotype
  | Func
  | Array nat gotype
  | Struct "gotype list" "string list" "string list"
  | Interface "string list"
  | Defined string gotype "string list" "string list"

fun is_iface :: "gotype \<Rightarrow> bool" where
  "is_iface (Interface ms) = True"
| "is_iface (Defined n U vm pm) = is_iface U"
| "is_iface _ = False"

fun is_pointer :: "gotype \<Rightarrow> bool" where
  "is_pointer (Pointer t) = True"
| "is_pointer (Defined n U vm pm) = is_pointer U"
| "is_pointer _ = False"

text \<open>The methods an interface type asks for.\<close>

fun iface_methods :: "gotype \<Rightarrow> string list" where
  "iface_methods (Interface ms) = ms"
| "iface_methods (Defined n U vm pm) = iface_methods U"
| "iface_methods _ = []"

text \<open>
  A Go map (and \<open>sync.Map\<close>, which is built on one) panics with
  "hash of unhashable type" when the dynamic type of an interface key is a slice, a map, a
  function, or an array or struct that holds one. The nil interface hashes fine.
\<close>

fun hashable :: "gotype \<Rightarrow> bool" where
  "hashable (Slice t) = False"
| "hashable (MapT k v) = False"
| "hashable Func = False"
| "hashable (Array n t) = hashable t"
| "hashable (Struct fs vm pm) = (\<forall>t \<in> set fs. hashable t)"
| "hashable (Defined n U vm pm) = hashable U"
| "hashable (Basic b) = True"
| "hashable (Pointer t) = True"
| "hashable (Chan t) = True"
| "hashable (Interface ms) = True"

text \<open>
  The method set of a type that is not an interface type: of \<open>T\<close>, the methods with
  receiver \<open>T\<close>; of \<open>*T\<close>, the methods with receiver \<open>T\<close> or \<open>*T\<close>.
\<close>

fun methods_of :: "gotype \<Rightarrow> string list" where
  "methods_of (Defined n U vm pm) = (if is_pointer U \<or> is_iface U then [] else vm)"
| "methods_of (Struct fs vm pm) = vm"
| "methods_of (Pointer (Defined n U vm pm)) =
     (if is_pointer U \<or> is_iface U then [] else vm @ pm)"
| "methods_of (Pointer (Struct fs vm pm)) = vm @ pm"
| "methods_of _ = []"

text \<open>
  A type that is not an interface type implements an interface type when its method set
  holds every method the interface asks for.
\<close>

definition implements :: "gotype \<Rightarrow> gotype \<Rightarrow> bool" where
  "implements C I =
     (is_iface I \<and> \<not> is_iface C \<and> set (iface_methods I) \<subseteq> set (methods_of C))"

text \<open>
  A value of type \<open>any\<close>: nil, or a dynamic type together with the data. The data is
  left polymorphic; equality on it is value equality (an address for a pointer or a
  channel). A value of a static type \<open>T\<close> is represented by its conversion to \<open>any\<close>,
  which is what \<open>dest <- val\<close> sends: for an interface type the conversion keeps the
  dynamic type (and nil stays nil), for any other type it boxes the data under \<open>T\<close>.
\<close>

datatype 'v any = Nil | Box gotype 'v

fun hasType :: "'v any \<Rightarrow> gotype \<Rightarrow> bool" where
  "hasType Nil T = is_iface T"
| "hasType (Box C x) T = (\<not> is_iface C \<and> (if is_iface T then implements C T else C = T))"

text \<open>
  The type assertion \<open>val.(T)\<close> of \<open>castAndForward\<close>. It fails on nil, whatever
  \<open>T\<close> is.
\<close>

fun assertType :: "gotype \<Rightarrow> 'v any \<Rightarrow> 'v any option" where
  "assertType T Nil = None"
| "assertType T (Box C x) =
     (if (if is_iface T then implements C T else C = T) then Some (Box C x) else None)"

text \<open>
  The registry key is \<open>var zero T\<close> converted to \<open>any\<close>. For an interface type the
  zero value is the nil interface, so the key is nil; for every other type the key has
  dynamic type \<open>T\<close> and holds the zero value of \<open>T\<close>. Go compares interface values
  by dynamic type and then by value, and the value here is determined by the type, so a
  key is either nil or the zero of one non-interface type.
\<close>

datatype key = NilKey | ZeroOf gotype

definition typeKey :: "gotype \<Rightarrow> key" where
  "typeKey T = (if is_iface T then NilKey else ZeroOf T)"

section \<open>Contexts, channels and goroutines\<close>

type_synonym uuid = nat

text \<open>
  A context is the background context, a context of the caller, or the child that
  \<open>context.WithCancel\<close> derives in \<open>SubscribeToScope\<close>; the child is named after the
  subscription it was made for. A context is done when it or an ancestor was cancelled.
\<close>

datatype ctx = Background | Caller nat | WithCancel ctx uuid

fun ctxDone :: "ctx set \<Rightarrow> ctx \<Rightarrow> bool" where
  "ctxDone X Background = False"
| "ctxDone X (Caller n) = (Caller n \<in> X)"
| "ctxDone X (WithCancel p i) = (WithCancel p i \<in> X \<or> ctxDone X p)"

text \<open>
  The two channels that \<open>SubscribeToScope\<close> makes, named after the subscription:
  \<open>ch\<close> is \<open>TypedCh id\<close> and \<open>untypedCh\<close> is \<open>UntypedCh id\<close>.
\<close>

datatype chan = TypedCh uuid | UntypedCh uuid

datatype error = UnhashableType gotype | MismatchedType

text \<open>The goroutine that \<open>PublishToScope\<close> starts for one subscriber.\<close>

record 'v sender =
  dest :: chan
  val :: "'v any"
  sctx :: ctx

text \<open>
  The goroutine \<open>castAndForward\<close>: at the outer \<open>select\<close>, at the inner
  \<open>select\<close> with the typed value in hand, or returned (and \<open>out\<close> closed).
\<close>

datatype 'v pc = Selecting | Forwarding "'v any" | Returned

record 'v forwarder =
  fctx :: ctx
  fout :: chan
  ftype :: gotype
  fpc :: "'v pc"

text \<open>The closure \<open>unsub\<close>: the subscriber set it deletes from, the id, and the context it cancels.\<close>

datatype UnsubFn = UnsubFn key uuid ctx

text \<open>
  The state of one event scope and of the goroutines that work for it.
  \<open>subscribers\<close> is the \<open>sync.Map\<close> of \<open>sync.Map\<close>s; a subscriber set is never
  removed or replaced, so the set stands where the pointer to it is stored.
  \<open>forwarders\<close> is keyed by the channel the goroutine receives from.
  \<open>received\<close> records what readers took from the typed channels.
\<close>

record 'v state =
  subscribers :: "(key \<times> (uuid \<times> chan) list) list"
  next_uuid :: uuid
  cancelled :: "ctx set"
  closed :: "chan set"
  senders :: "'v sender list"
  forwarders :: "(chan \<times> 'v forwarder) list"
  received :: "(chan \<times> 'v any) list"
  crashed :: "error option"

definition NewEventScope :: "'v state" where
  "NewEventScope = \<lparr> subscribers = [], next_uuid = 0, cancelled = {}, closed = {},
     senders = [], forwarders = [], received = [], crashed = None \<rparr>"

subsection \<open>The operations of sync.Map that the package uses\<close>

definition Load :: "'k \<Rightarrow> ('k \<times> 'a) list \<Rightarrow> 'a option" where
  "Load k m = map_of m k"

definition LoadOrStore :: "'k \<Rightarrow> 'a \<Rightarrow> ('k \<times> 'a) list \<Rightarrow> 'a \<times> ('k \<times> 'a) list" where
  "LoadOrStore k v m = (case map_of m k of Some x \<Rightarrow> (x, m) | None \<Rightarrow> (v, m @ [(k, v)]))"

definition Store :: "'k \<Rightarrow> 'a \<Rightarrow> ('k \<times> 'a) list \<Rightarrow> ('k \<times> 'a) list" where
  "Store k v m = AList.update k v m"

definition Delete :: "'k \<Rightarrow> ('k \<times> 'a) list \<Rightarrow> ('k \<times> 'a) list" where
  "Delete k m = AList.delete k m"

section \<open>PublishToScope, SubscribeToScope and unsub\<close>

text \<open>
  \<open>PublishToScope\<close>: \<open>Load(zero)\<close> panics for an unhashable type; with no subscriber
  set the call returns; otherwise \<open>Range\<close> starts one goroutine per entry.
\<close>

definition PublishToScope ::
  "ctx \<Rightarrow> gotype \<Rightarrow> 'v any \<Rightarrow> 'v state \<Rightarrow> (error + unit) \<times> 'v state" where
  "PublishToScope c T v s =
     (if \<not> hashable T then (Inl (UnhashableType T), s)
      else case Load (typeKey T) (subscribers s) of
        None \<Rightarrow> (Inr (), s)
      | Some subMap \<Rightarrow>
          (Inr (), s\<lparr> senders := senders s @
                     map (\<lambda>(_, value). \<lparr> dest = value, val = v, sctx = c \<rparr>) subMap \<rparr>))"

text \<open>
  \<open>SubscribeToScope\<close>: the channels and the id are made first; \<open>LoadOrStore(zero, ...)\<close>
  panics for an unhashable type; then the endpoint is stored under the id, the child
  context is derived and \<open>castAndForward\<close> is started.
\<close>

definition SubscribeToScope ::
  "ctx \<Rightarrow> gotype \<Rightarrow> 'v state \<Rightarrow> (error + chan \<times> UnsubFn) \<times> 'v state" where
  "SubscribeToScope c T s =
     (let id = next_uuid s;
          ch = TypedCh id;
          untypedCh = UntypedCh id;
          s0 = s\<lparr> next_uuid := Suc id \<rparr>
      in if \<not> hashable T then (Inl (UnhashableType T), s0)
         else
           let (subMap, subs) = LoadOrStore (typeKey T) [] (subscribers s0);
               forwardCtx = WithCancel c id
           in (Inr (ch, UnsubFn (typeKey T) id forwardCtx),
               s0\<lparr> subscribers := AList.update (typeKey T) (Store id untypedCh subMap) subs,
                   forwarders := AList.update untypedCh
                     \<lparr> fctx = forwardCtx, fout = ch, ftype = T, fpc = Selecting \<rparr>
                     (forwarders s0) \<rparr>))"

text \<open>\<open>unsub\<close>: \<open>subMap.Delete(id)\<close>, then \<open>cancel()\<close>.\<close>

fun unsub :: "UnsubFn \<Rightarrow> 'v state \<Rightarrow> 'v state" where
  "unsub (UnsubFn k i fc) s =
     s\<lparr> subscribers := AList.map_entry k (Delete i) (subscribers s),
        cancelled := insert fc (cancelled s) \<rparr>"

text \<open>The caller cancels a context.\<close>

definition cancel :: "ctx \<Rightarrow> 'v state \<Rightarrow> 'v state" where
  "cancel c s = s\<lparr> cancelled := insert c (cancelled s) \<rparr>"

section \<open>The steps of the goroutines\<close>

definition remove_nth :: "nat \<Rightarrow> 'a list \<Rightarrow> 'a list" where
  "remove_nth i xs = take i xs @ drop (Suc i) xs"

text \<open>
  The send \<open>dest <- val\<close> of sender \<open>i\<close> meets the receive \<open>val, ok := <-in\<close> of the
  forwarder at its outer \<open>select\<close>. The forwarder asserts the type: on failure it
  panics (the deferred \<open>close(out)\<close> runs, and the process dies), otherwise it moves to
  the inner \<open>select\<close>. Go picks among the ready cases of a \<open>select\<close> at random, so the
  receive may be taken also when the context is done.
\<close>

definition sendStep :: "nat \<Rightarrow> 'v state \<Rightarrow> 'v state" where
  "sendStep i s =
     (if i < length (senders s) then
        let sd = senders s ! i in
        case map_of (forwarders s) (dest sd) of
          None \<Rightarrow> s
        | Some f \<Rightarrow>
            if fpc f = Selecting then
              (case assertType (ftype f) (val sd) of
                 None \<Rightarrow>
                   s\<lparr> senders := remove_nth i (senders s),
                      forwarders := AList.update (dest sd) (f\<lparr> fpc := Returned \<rparr>) (forwarders s),
                      closed := insert (fout f) (closed s),
                      crashed := Some MismatchedType \<rparr>
               | Some typedVal \<Rightarrow>
                   s\<lparr> senders := remove_nth i (senders s),
                      forwarders := AList.update (dest sd)
                        (f\<lparr> fpc := Forwarding typedVal \<rparr>) (forwarders s) \<rparr>)
            else s
      else s)"

text \<open>Sender \<open>i\<close> takes \<open>case <-ctx.Done()\<close> and returns.\<close>

definition abandonStep :: "nat \<Rightarrow> 'v state \<Rightarrow> 'v state" where
  "abandonStep i s =
     (if i < length (senders s) \<and> ctxDone (cancelled s) (sctx (senders s ! i))
      then s\<lparr> senders := remove_nth i (senders s) \<rparr> else s)"

text \<open>
  The forwarder that receives from \<open>c\<close> returns: it took \<open>case <-ctx.Done()\<close> in
  either \<open>select\<close>, or it found \<open>in\<close> closed. The deferred \<open>close(out)\<close> runs.
\<close>

definition stopStep :: "chan \<Rightarrow> 'v state \<Rightarrow> 'v state" where
  "stopStep c s =
     (case map_of (forwarders s) c of
        None \<Rightarrow> s
      | Some f \<Rightarrow>
          if fpc f \<noteq> Returned \<and>
             (ctxDone (cancelled s) (fctx f) \<or> (fpc f = Selecting \<and> c \<in> closed s))
          then s\<lparr> forwarders := AList.update c (f\<lparr> fpc := Returned \<rparr>) (forwarders s),
                  closed := insert (fout f) (closed s) \<rparr>
          else s)"

text \<open>
  The forwarder that receives from \<open>c\<close> is at \<open>out <- typedVal\<close> and a reader takes
  the value; the forwarder goes back to the outer \<open>select\<close>.
\<close>

definition deliverStep :: "chan \<Rightarrow> 'v state \<Rightarrow> 'v state" where
  "deliverStep c s =
     (case map_of (forwarders s) c of
        None \<Rightarrow> s
      | Some f \<Rightarrow>
          (case fpc f of
             Forwarding typedVal \<Rightarrow>
               s\<lparr> forwarders := AList.update c (f\<lparr> fpc := Selecting \<rparr>) (forwarders s),
                  received := received s @ [(fout f, typedVal)] \<rparr>
           | _ \<Rightarrow> s))"

text \<open>
  One step of the whole system. The calls of the package are atomic steps; a call that
  panics in its caller leaves the state it reached (the caller may recover, as the tests
  do). A panic inside \<open>castAndForward\<close> cannot be recovered: nothing moves after it.
  Go's type checker rejects a publish of a value that does not have the type parameter.
  An action that is not enabled leaves the state as it is.
\<close>

datatype 'v action =
    Subscribe ctx gotype
  | Publish ctx gotype "'v any"
  | Unsubscribe UnsubFn
  | Cancel ctx
  | Send nat
  | Abandon nat
  | Stop chan
  | Deliver chan

fun exec :: "'v action \<Rightarrow> 'v state \<Rightarrow> 'v state" where
  "exec (Subscribe c T) s = snd (SubscribeToScope c T s)"
| "exec (Publish c T v) s = (if hasType v T then snd (PublishToScope c T v s) else s)"
| "exec (Unsubscribe u) s = unsub u s"
| "exec (Cancel c) s = cancel c s"
| "exec (Send i) s = sendStep i s"
| "exec (Abandon i) s = abandonStep i s"
| "exec (Stop c) s = stopStep c s"
| "exec (Deliver c) s = deliverStep c s"

definition step :: "'v action \<Rightarrow> 'v state \<Rightarrow> 'v state" where
  "step a s = (if crashed s \<noteq> None then s else exec a s)"

definition run :: "'v action list \<Rightarrow> 'v state \<Rightarrow> 'v state" where
  "run as s = fold step as s"

section \<open>Teardown signals\<close>

text \<open>
  The two ways a subscription is torn down: the caller calls \<open>unsub\<close>, or the context
  given to \<open>SubscribeToScope\<close> is cancelled.
\<close>

datatype teardown = CallUnsub | CtxFires

fun signal :: "UnsubFn \<Rightarrow> ctx \<Rightarrow> teardown \<Rightarrow> 'v state \<Rightarrow> 'v state" where
  "signal u c CallUnsub s = unsub u s"
| "signal u c CtxFires s = cancel c s"

section \<open>The types of the tests and of the README\<close>

definition intT :: gotype where
  "intT = Basic ''int''"

definition boolSlice :: gotype where
  "boolSlice = Slice (Basic ''bool'')"

definition testInterface :: gotype where
  "testInterface = Defined ''testInterface'' (Interface [''Test'']) [] []"

definition testImpl :: gotype where
  "testImpl = Defined ''testImpl'' (Struct [] [] []) [''Test''] []"

definition errorT :: gotype where
  "errorT = Defined ''error'' (Interface [''Error'']) [] []"

definition userError :: gotype where
  "userError = Defined ''userError'' (Struct [] [] []) [''Error''] []"

section \<open>Well-formed states\<close>

text \<open>
  What every state reached from a new scope satisfies: the keys of the registry and of each
  subscriber set are distinct; an entry stores, under its id, the untyped channel of that
  subscription, whose forwarder was started for a type with the key of the subscriber set;
  the forwarder that receives from \<open>UntypedCh i\<close> sends to \<open>TypedCh i\<close>, under the
  child context of subscription \<open>i\<close>, and \<open>i\<close> has been handed out; a forwarder that
  has returned has closed its typed channel.
\<close>

definition wf_keys :: "'v state \<Rightarrow> bool" where
  "wf_keys s = (distinct (map fst (subscribers s)) \<and>
     (\<forall>k m. (k, m) \<in> set (subscribers s) \<longrightarrow> distinct (map fst m)))"

definition wf_reg :: "'v state \<Rightarrow> bool" where
  "wf_reg s = (\<forall>k m i c. (k, m) \<in> set (subscribers s) \<longrightarrow> (i, c) \<in> set m \<longrightarrow>
     c = UntypedCh i \<and>
     (\<exists>f. map_of (forwarders s) c = Some f \<and> typeKey (ftype f) = k))"

definition wf_fwd :: "'v state \<Rightarrow> bool" where
  "wf_fwd s = (\<forall>c f. (c, f) \<in> set (forwarders s) \<longrightarrow>
     (\<exists>i p. c = UntypedCh i \<and> i < next_uuid s \<and> fout f = TypedCh i \<and> fctx f = WithCancel p i))"

definition wf_closed :: "'v state \<Rightarrow> bool" where
  "wf_closed s = (\<forall>c f. (c, f) \<in> set (forwarders s) \<longrightarrow> fpc f = Returned \<longrightarrow>
     fout f \<in> closed s)"

definition wf :: "'v state \<Rightarrow> bool" where
  "wf s = (wf_keys s \<and> wf_reg s \<and> wf_fwd s \<and> wf_closed s)"

section \<open>After unsub\<close>

text \<open>
  \<open>registered\<close>: some subscriber set holds the channel as an endpoint.
  \<open>in_flight\<close>: a sender is waiting to hand the value to the channel, or the forwarder
  that receives from the channel holds the value at its inner \<open>select\<close>.
\<close>

definition registered :: "'v state \<Rightarrow> chan \<Rightarrow> bool" where
  "registered s ch = (\<exists>k m i. (k, m) \<in> set (subscribers s) \<and> (i, ch) \<in> set m)"

definition in_flight :: "'v state \<Rightarrow> chan \<Rightarrow> 'v any \<Rightarrow> bool" where
  "in_flight s ch v =
     ((\<exists>sd \<in> set (senders s). dest sd = ch \<and> val sd = v) \<or>
      (\<exists>f. map_of (forwarders s) ch = Some f \<and> fpc f = Forwarding v))"

text \<open>
  \<open>quiet\<close>: subscription \<open>i\<close> has no entry, the value is not on its way to the
  subscription and has not been received on its typed channel.
  \<open>stopping\<close>: the child context of subscription \<open>i\<close> is cancelled, and its typed
  channel is closed if the forwarder has returned.
\<close>

definition quiet :: "'v state \<Rightarrow> uuid \<Rightarrow> 'v any \<Rightarrow> bool" where
  "quiet s i v = (wf s \<and> i < next_uuid s \<and> \<not> registered s (UntypedCh i) \<and>
     \<not> in_flight s (UntypedCh i) v \<and> (TypedCh i, v) \<notin> set (received s))"

definition stopping :: "'v state \<Rightarrow> uuid \<Rightarrow> bool" where
  "stopping s i = (i < next_uuid s \<and>
     (\<exists>f p. map_of (forwarders s) (UntypedCh i) = Some f \<and> fout f = TypedCh i \<and>
        fctx f = WithCancel p i \<and> WithCancel p i \<in> cancelled s \<and>
        (fpc f = Returned \<longrightarrow> TypedCh i \<in> closed s)))"

section \<open>Basic facts\<close>

lemmas model_defs = implements_def run_def step_def SubscribeToScope_def PublishToScope_def cancel_def
  sendStep_def abandonStep_def stopStep_def deliverStep_def NewEventScope_def
  Load_def LoadOrStore_def Store_def Delete_def typeKey_def remove_nth_def Let_def

lemma crashed_run: "crashed s \<noteq> None \<Longrightarrow> run as s = s"
  unfolding run_def by (induction as) (simp_all add: step_def)



lemma typeKey_concrete_inj:
  "\<not> is_iface T1 \<Longrightarrow> typeKey T1 = typeKey T2 \<Longrightarrow> T1 = T2"
  by (simp add: typeKey_def split: if_splits)

section \<open>Keys and types\<close>

text \<open>
  C3 (keys identify types, in particular for distinct interface types). The code does not
  keep this: the zero value of every interface type is the nil interface, so
  \<open>testInterface\<close> and \<open>error\<close>, two distinct types, get the same key. (Keys of
  distinct non-interface types differ: \<open>typeKey_concrete_inj\<close>.)
\<close>

theorem interface_keys_collide:
  "testInterface \<noteq> errorT \<and> typeKey testInterface = typeKey errorT"
  by (simp add: testInterface_def errorT_def typeKey_def)

section \<open>Publishing without subscribers\<close>

text \<open>
  C4, as amended: when the scope holds no subscriber set under the key of \<open>T\<close>,
  \<open>PublishToScope\<close> leaves the whole state as it was; it returns normally when \<open>T\<close>
  is hashable and panics in \<open>Load\<close> when it is not.
\<close>

theorem publish_no_subscriber_set:
  "Load (typeKey T) (subscribers s) = None \<Longrightarrow>
   PublishToScope c T v s = (if hashable T then Inr () else Inl (UnhashableType T), s)"
  by (simp add: PublishToScope_def)

theorem publish_no_subscriber_set_witness:
  "Load (typeKey intT) (subscribers (NewEventScope :: int state)) = None \<and>
   PublishToScope Background intT (Box intT (1::int)) NewEventScope = (Inr (), NewEventScope)"
  using publish_no_subscriber_set [of intT "NewEventScope :: int state" Background "Box intT 1"]
  by (simp add: Load_def NewEventScope_def intT_def)

text \<open>
  C4 as stated fails for a slice type: on a fresh scope, which has no subscriber set at
  all, publishing a \<open>[]bool\<close> panics.
\<close>

theorem publish_unhashable_counterexample:
  "Load (typeKey boolSlice) (subscribers (NewEventScope :: int state)) = None \<and>
   fst (PublishToScope Background boolSlice (Box boolSlice (1::int)) NewEventScope)
     = Inl (UnhashableType boolSlice)"
  by (simp add: PublishToScope_def Load_def NewEventScope_def boolSlice_def)

section \<open>Subscribing to an unhashable type\<close>

text \<open>
  C5: for a type that is not hashable, \<open>SubscribeToScope\<close> panics, and the registry, the
  forwarders and the senders are what they were before the call.
\<close>

theorem subscribe_unhashable_fails_fast:
  "\<not> hashable T \<Longrightarrow>
   fst (SubscribeToScope c T s) = Inl (UnhashableType T) \<and>
   subscribers (snd (SubscribeToScope c T s)) = subscribers s \<and>
   forwarders (snd (SubscribeToScope c T s)) = forwarders s \<and>
   senders (snd (SubscribeToScope c T s)) = senders s \<and>
   crashed (snd (SubscribeToScope c T s)) = crashed s"
  by (simp add: SubscribeToScope_def Let_def)

theorem subscribe_unhashable_fails_fast_witness:
  "\<not> hashable boolSlice \<and>
   fst (SubscribeToScope Background boolSlice (NewEventScope :: int state))
     = Inl (UnhashableType boolSlice) \<and>
   subscribers (snd (SubscribeToScope Background boolSlice (NewEventScope :: int state))) = []"
  using subscribe_unhashable_fails_fast [of boolSlice Background "NewEventScope :: int state"]
  by (simp add: boolSlice_def NewEventScope_def)

section \<open>Teardown by cancellation and by unsub\<close>

text \<open>
  C6 (cancellation tears down like \<open>unsub\<close>, entry removed included). On the code the
  two paths differ: after the caller's context is cancelled and the forwarder has returned,
  the typed channel is closed but the entry is still in the subscriber set; after \<open>unsub\<close>
  the entry is gone.
\<close>

theorem cancel_leaves_entry:
  "fst (SubscribeToScope (Caller 0) intT (NewEventScope :: int state))
     = Inr (TypedCh 0, UnsubFn (ZeroOf intT) 0 (WithCancel (Caller 0) 0)) \<and>
   subscribers (run [Subscribe (Caller 0) intT, Cancel (Caller 0), Stop (UntypedCh 0)]
      (NewEventScope :: int state)) = [(ZeroOf intT, [(0, UntypedCh 0)])] \<and>
   TypedCh 0 \<in> closed (run [Subscribe (Caller 0) intT, Cancel (Caller 0), Stop (UntypedCh 0)]
      (NewEventScope :: int state)) \<and>
   subscribers (run [Subscribe (Caller 0) intT,
      Unsubscribe (UnsubFn (ZeroOf intT) 0 (WithCancel (Caller 0) 0)), Stop (UntypedCh 0)]
      (NewEventScope :: int state)) = [(ZeroOf intT, [])]"
  by (simp add: model_defs intT_def)

section \<open>The type assertion of the forwarder\<close>

text \<open>
  C8 (the mismatch branch is unreachable). On the code it is reached: a subscriber of
  \<open>testInterface\<close> and a well-typed publish under \<open>error\<close> share the nil key, the
  value arrives at the subscriber's endpoint and the assertion to \<open>testInterface\<close>
  fails.
\<close>

theorem mismatch_reachable:
  "hasType (Box userError (7::int)) errorT \<and>
   crashed (run [Subscribe Background testInterface,
                 Publish Background errorT (Box userError (7::int)),
                 Send 0] NewEventScope) = Some MismatchedType"
  by (simp add: model_defs testInterface_def errorT_def userError_def)

text \<open>
  C1 (every value of a comparable type is delivered as it was published). On the code the
  nil value of an interface type is not: subscribing to \<open>testInterface\<close> and publishing
  nil under \<open>testInterface\<close> makes the forwarder panic, and nothing is received.
\<close>

theorem nil_interface_not_delivered:
  "hashable testInterface \<and> hasType (Nil :: int any) testInterface \<and>
   (let s = run [Subscribe Background testInterface,
                 Publish Background testInterface Nil, Send 0] NewEventScope
    in crashed s = Some MismatchedType \<and> received s = ([] :: (chan \<times> int any) list))"
  by (simp add: model_defs testInterface_def)

section \<open>unsub is idempotent\<close>

lemma map_entry_Delete_idem:
  "AList.map_entry k (Delete i) (AList.map_entry k (Delete i) m) = AList.map_entry k (Delete i) m"
  by (induction m) (auto simp: Delete_def delete_idem)

lemma unsub_idem: "unsub u (unsub u s) = unsub u s"
  by (cases u) (simp add: map_entry_Delete_idem)

lemma cancel_idem: "cancel c (cancel c s) = cancel c s"
  by (simp add: cancel_def)

lemma unsub_cancel_commute: "unsub u (cancel c s) = cancel c (unsub u s)"
  by (cases u) (simp add: cancel_def insert_commute)

lemma fold_signal:
  "fold (signal u c) sigs s =
     (if CallUnsub \<in> set sigs
      then (if CtxFires \<in> set sigs then cancel c (unsub u s) else unsub u s)
      else (if CtxFires \<in> set sigs then cancel c s else s))"
proof (induction sigs arbitrary: s)
  case Nil
  show ?case by simp
next
  case (Cons a sigs)
  show ?case
  proof (cases a)
    case CallUnsub
    then show ?thesis
      using Cons.IH [of "unsub u s"] by (simp add: unsub_idem)
  next
    case CtxFires
    then show ?thesis
      using Cons.IH [of "cancel c s"] by (simp add: cancel_idem unsub_cancel_commute)
  qed
qed

lemma unsub_entry_removed:
  "Load k (subscribers (unsub (UnsubFn k i fc) s)) = Some m \<Longrightarrow> Load i m = None"
  by (auto simp: Load_def map_of_map_entry Delete_def delete_conv' split: option.splits)

lemma unsub_fields:
  "crashed (unsub u s) = crashed s" "forwarders (unsub u s) = forwarders s"
  "senders (unsub u s) = senders s" "closed (unsub u s) = closed s"
  "received (unsub u s) = received s" "next_uuid (unsub u s) = next_uuid s"
  by (cases u; simp)+

lemma cancel_fields:
  "crashed (cancel c s) = crashed s" "forwarders (cancel c s) = forwarders s"
  "senders (cancel c s) = senders s" "closed (cancel c s) = closed s"
  "received (cancel c s) = received s" "next_uuid (cancel c s) = next_uuid s"
  "subscribers (cancel c s) = subscribers s"
  by (simp_all add: cancel_def)

lemma stop_closes:
  "map_of (forwarders s) ch = Some f \<Longrightarrow> fpc f \<noteq> Returned \<Longrightarrow>
   ctxDone (cancelled s) (fctx f) \<Longrightarrow> fout f \<in> closed (stopStep ch s)"
  by (simp add: stopStep_def)

text \<open>
  C9: take any sequence of teardown signals for one subscription (calls of its \<open>unsub\<close>
  and cancellations of the context it was subscribed with) in which \<open>unsub\<close> is called at
  least once. The state it leaves is the state one call of \<open>unsub\<close> leaves (with the
  caller's context cancelled as well, when that fired); no panic is raised; the entry is
  not in the subscriber set; and the forwarder, unless it has returned already, closes the
  typed channel with its next step.
\<close>

theorem unsub_idempotent:
  assumes "CallUnsub \<in> set sigs"
  shows "fold (signal (UnsubFn k i (WithCancel c i)) c) sigs s =
           (if CtxFires \<in> set sigs then cancel c (unsub (UnsubFn k i (WithCancel c i)) s)
            else unsub (UnsubFn k i (WithCancel c i)) s) \<and>
         crashed (fold (signal (UnsubFn k i (WithCancel c i)) c) sigs s) = crashed s \<and>
         (\<forall>m. Load k (subscribers (fold (signal (UnsubFn k i (WithCancel c i)) c) sigs s)) = Some m
               \<longrightarrow> Load i m = None) \<and>
         (\<forall>f. map_of (forwarders s) (UntypedCh i) = Some f \<and> fctx f = WithCancel c i \<and> fpc f \<noteq> Returned
               \<longrightarrow> fout f \<in> closed (stopStep (UntypedCh i)
                      (fold (signal (UnsubFn k i (WithCancel c i)) c) sigs s)))"
proof -
  let ?u = "UnsubFn k i (WithCancel c i)"
  let ?t = "fold (signal ?u c) sigs s"
  have eq: "?t = (if CtxFires \<in> set sigs then cancel c (unsub ?u s) else unsub ?u s)"
    using assms by (simp add: fold_signal)
  have cr: "crashed ?t = crashed s"
    by (simp add: eq cancel_def)
  have en: "\<forall>m. Load k (subscribers ?t) = Some m \<longrightarrow> Load i m = None"
    using unsub_entry_removed [of k i "WithCancel c i" s]
    by (auto simp: eq cancel_def)
  have fw: "forwarders ?t = forwarders s" by (simp add: eq cancel_def)
  have dn: "WithCancel c i \<in> cancelled ?t" by (simp add: eq cancel_def)
  have cl: "\<forall>f. map_of (forwarders s) (UntypedCh i) = Some f \<and> fctx f = WithCancel c i \<and> fpc f \<noteq> Returned
               \<longrightarrow> fout f \<in> closed (stopStep (UntypedCh i) ?t)"
  proof (intro allI impI)
    fix f assume a: "map_of (forwarders s) (UntypedCh i) = Some f \<and> fctx f = WithCancel c i \<and> fpc f \<noteq> Returned"
    then have "map_of (forwarders ?t) (UntypedCh i) = Some f" using fw by simp
    moreover have "ctxDone (cancelled ?t) (fctx f)" using a dn by simp
    ultimately show "fout f \<in> closed (stopStep (UntypedCh i) ?t)"
      using a by (intro stop_closes) auto
  qed
  show ?thesis using eq cr en cl by blast
qed

theorem unsub_idempotent_witness:
  "(let u = UnsubFn (ZeroOf intT) 0 (WithCancel (Caller 0) 0);
        s = run [Subscribe (Caller 0) intT] (NewEventScope :: int state);
        t = fold (signal u (Caller 0)) [CtxFires, CallUnsub, CallUnsub] s
    in CallUnsub \<in> set [CtxFires, CallUnsub, CallUnsub] \<and>
       t = cancel (Caller 0) (unsub u s) \<and> crashed t = None \<and>
       Load (ZeroOf intT) (subscribers t) = Some [] \<and>
       TypedCh 0 \<in> closed (stopStep (UntypedCh 0) t))"
  using unsub_idempotent [where sigs = "[CtxFires, CallUnsub, CallUnsub]" and k = "ZeroOf intT"
      and i = 0 and c = "Caller 0"
      and s = "run [Subscribe (Caller 0) intT] (NewEventScope :: int state)"]
  by (auto simp add: model_defs intT_def)

section \<open>Publishing nil under an interface type\<close>

lemma publish_senders:
  assumes "hashable T" "Load (typeKey T) (subscribers s) = Some subMap"
  shows "snd (PublishToScope c T v s) =
         s\<lparr> senders := senders s @ map (\<lambda>(_, value). \<lparr> dest = value, val = v, sctx = c \<rparr>) subMap \<rparr>"
  using assms by (simp add: PublishToScope_def)

lemma publish_sender_for_entry:
  assumes "hashable T" "Load (typeKey T) (subscribers s) = Some subMap" "(i, ch) \<in> set subMap"
  shows "\<exists>n < length (senders (snd (PublishToScope c T v s))).
           length (senders s) \<le> n \<and>
           senders (snd (PublishToScope c T v s)) ! n = \<lparr> dest = ch, val = v, sctx = c \<rparr>"
proof -
  from assms(3) obtain j where j: "j < length subMap" "subMap ! j = (i, ch)"
    by (auto simp: in_set_conv_nth)
  let ?new = "map (\<lambda>(_, value). \<lparr> dest = value, val = v, sctx = c \<rparr>) subMap"
  have "?new ! j = \<lparr> dest = ch, val = v, sctx = c \<rparr>" using j by simp
  then have "(senders s @ ?new) ! (length (senders s) + j) = \<lparr> dest = ch, val = v, sctx = c \<rparr>"
    by (simp add: nth_append)
  moreover have "length (senders s) + j < length (senders s @ ?new)" using j by simp
  ultimately show ?thesis
    unfolding publish_senders [OF assms(1,2)]
    by (intro exI [of _ "length (senders s) + j"]) simp
qed




section \<open>Well-formedness is invariant\<close>

lemma in_update: "p \<in> set (AList.update k v al) \<Longrightarrow> p = (k, v) \<or> p \<in> set al"
  by (induction al) (auto split: if_splits)

lemma in_delete: "p \<in> set (AList.delete k al) \<Longrightarrow> p \<in> set al \<and> fst p \<noteq> k"
  by (auto simp: AList.delete_eq)

lemma map_fst_map_entry: "map fst (AList.map_entry k f al) = map fst al"
  by (induction al) auto

lemma in_map_entry:
  "distinct (map fst al) \<Longrightarrow> p \<in> set (AList.map_entry k f al) \<Longrightarrow>
   (fst p \<noteq> k \<and> p \<in> set al) \<or> (\<exists>v. (k, v) \<in> set al \<and> p = (k, f v))"
proof (induction al)
  case Nil
  then show ?case by simp
next
  case (Cons a al)
  show ?case
  proof (cases "fst a = k")
    case True
    then have "p = (k, f (snd a)) \<or> p \<in> set al" using Cons.prems(2) by simp
    moreover have "p \<in> set al \<Longrightarrow> fst p \<noteq> k"
      using Cons.prems(1) True by (auto simp: image_iff)
    moreover have "(k, snd a) \<in> set (a # al)" using True by (cases a) simp
    ultimately show ?thesis by auto
  next
    case False
    then have "p = a \<or> p \<in> set (AList.map_entry k f al)" using Cons.prems(2) by simp
    then show ?thesis
    proof
      assume "p = a" then show ?thesis using False by simp
    next
      assume "p \<in> set (AList.map_entry k f al)"
      with Cons.IH Cons.prems(1) show ?thesis by auto
    qed
  qed
qed

lemma wf_fwd_lookup:
  "wf_fwd s \<Longrightarrow> map_of (forwarders s) c = Some f \<Longrightarrow>
   \<exists>i p. c = UntypedCh i \<and> i < next_uuid s \<and> fout f = TypedCh i \<and> fctx f = WithCancel p i"
  by (drule map_of_SomeD) (auto simp: wf_fwd_def)

lemma wf_NewEventScope: "wf NewEventScope"
  by (simp add: wf_def wf_keys_def wf_reg_def wf_fwd_def wf_closed_def NewEventScope_def)

lemma wf_regI:
  "(\<And>k m i c. (k, m) \<in> set (subscribers s) \<Longrightarrow> (i, c) \<in> set m \<Longrightarrow>
      c = UntypedCh i \<and> (\<exists>f. map_of (forwarders s) c = Some f \<and> typeKey (ftype f) = k))
   \<Longrightarrow> wf_reg s"
  unfolding wf_reg_def by blast

lemma wf_regD:
  "wf_reg s \<Longrightarrow> (k, m) \<in> set (subscribers s) \<Longrightarrow> (i, c) \<in> set m \<Longrightarrow>
      c = UntypedCh i \<and> (\<exists>f. map_of (forwarders s) c = Some f \<and> typeKey (ftype f) = k)"
  unfolding wf_reg_def by blast

lemma wf_fwdI:
  "(\<And>c f. (c, f) \<in> set (forwarders s) \<Longrightarrow>
      \<exists>i p. c = UntypedCh i \<and> i < next_uuid s \<and> fout f = TypedCh i \<and> fctx f = WithCancel p i)
   \<Longrightarrow> wf_fwd s"
  unfolding wf_fwd_def by blast

lemma wf_fwdD:
  "wf_fwd s \<Longrightarrow> (c, f) \<in> set (forwarders s) \<Longrightarrow>
      \<exists>i p. c = UntypedCh i \<and> i < next_uuid s \<and> fout f = TypedCh i \<and> fctx f = WithCancel p i"
  unfolding wf_fwd_def by blast

lemma wf_pc_update:
  assumes "wf s" "map_of (forwarders s) c = Some f"
    "subscribers s' = subscribers s" "next_uuid s' = next_uuid s"
    "forwarders s' = AList.update c (f\<lparr> fpc := x \<rparr>) (forwarders s)"
    "closed s \<subseteq> closed s'" "x = Returned \<longrightarrow> fout f \<in> closed s'"
  shows "wf s'"
proof -
  have wr: "wf_reg s" and wfw: "wf_fwd s" and wc: "wf_closed s"
    using assms(1) by (simp_all add: wf_def)
  have k: "wf_keys s'" using assms by (simp add: wf_def wf_keys_def)
  have r: "wf_reg s'"
  proof (rule wf_regI)
    fix k m i c' assume a: "(k, m) \<in> set (subscribers s')" "(i, c') \<in> set m"
    then have "(k, m) \<in> set (subscribers s)" using assms(3) by simp
    from wf_regD [OF wr this a(2)]
    obtain g where g: "c' = UntypedCh i" "map_of (forwarders s) c' = Some g" "typeKey (ftype g) = k"
      by blast
    show "c' = UntypedCh i \<and> (\<exists>f. map_of (forwarders s') c' = Some f \<and> typeKey (ftype f) = k)"
    proof (cases "c' = c")
      case True
      then have "g = f" using g(2) assms(2) by simp
      then show ?thesis using g True by (simp add: assms(5) update_conv')
    next
      case False
      then show ?thesis using g by (simp add: assms(5) update_conv')
    qed
  qed
  have cf: "(c, f) \<in> set (forwarders s)" using assms(2) by (rule map_of_SomeD)
  have f: "wf_fwd s'"
  proof (rule wf_fwdI)
    fix c' f' assume "(c', f') \<in> set (forwarders s')"
    then have "(c', f') \<in> set (AList.update c (f\<lparr> fpc := x \<rparr>) (forwarders s))"
      by (simp add: assms(5))
    then have "(c', f') = (c, f\<lparr> fpc := x \<rparr>) \<or> (c', f') \<in> set (forwarders s)"
      by (rule in_update)
    then show "\<exists>i p. c' = UntypedCh i \<and> i < next_uuid s' \<and> fout f' = TypedCh i \<and> fctx f' = WithCancel p i"
    proof
      assume e: "(c', f') = (c, f\<lparr> fpc := x \<rparr>)"
      from wf_fwdD [OF wfw cf] obtain i p where
        "c = UntypedCh i" "i < next_uuid s" "fout f = TypedCh i" "fctx f = WithCancel p i" by blast
      then show ?thesis using e assms(4) by simp
    next
      assume "(c', f') \<in> set (forwarders s)"
      from wf_fwdD [OF wfw this] show ?thesis using assms(4) by simp
    qed
  qed
  have cl: "wf_closed s'"
    unfolding wf_closed_def
  proof (intro allI impI)
    fix c' f' assume a: "(c', f') \<in> set (forwarders s')" "fpc f' = Returned"
    then have "(c', f') \<in> set (AList.update c (f\<lparr> fpc := x \<rparr>) (forwarders s))"
      by (simp add: assms(5))
    then have "(c', f') = (c, f\<lparr> fpc := x \<rparr>) \<or> (c', f') \<in> set (forwarders s)"
      by (rule in_update)
    then show "fout f' \<in> closed s'"
    proof
      assume "(c', f') = (c, f\<lparr> fpc := x \<rparr>)"
      then show ?thesis using a(2) assms(7) by auto
    next
      assume "(c', f') \<in> set (forwarders s)"
      then have "fout f' \<in> closed s" using wc a(2) unfolding wf_closed_def by blast
      then show ?thesis using assms(6) by blast
    qed
  qed
  show ?thesis using k r f cl by (simp add: wf_def)
qed

lemma wf_frame:
  assumes "wf s" "subscribers s' = subscribers s" "next_uuid s' = next_uuid s"
    "forwarders s' = forwarders s" "closed s' = closed s"
  shows "wf s'"
  using assms(1) unfolding wf_def wf_keys_def wf_reg_def wf_fwd_def wf_closed_def assms(2,3,4,5) .


lemma wf_sendStep: "wf s \<Longrightarrow> wf (sendStep i s)"
proof -
  assume w: "wf s"
  show ?thesis
  proof (cases "i < length (senders s)")
    case False then show ?thesis using w by (simp add: sendStep_def)
  next
    case True
    let ?sd = "senders s ! i"
    show ?thesis
    proof (cases "map_of (forwarders s) (dest ?sd)")
      case None then show ?thesis using w True by (simp add: sendStep_def Let_def)
    next
      case (Some f)
      show ?thesis
      proof (cases "fpc f = Selecting")
        case False then show ?thesis using w True Some by (simp add: sendStep_def Let_def)
      next
        case sel: True
        show ?thesis
        proof (cases "assertType (ftype f) (val ?sd)")
          case None
          show ?thesis
            by (rule wf_pc_update [OF w Some, where x = Returned])
               (auto simp add: sendStep_def Let_def True Some sel None)
        next
          case (Some tv)
          show ?thesis
            by (rule wf_pc_update [OF w \<open>map_of (forwarders s) (dest ?sd) = Some f\<close>, where x = "Forwarding tv"])
               (auto simp add: sendStep_def Let_def True \<open>map_of (forwarders s) (dest ?sd) = Some f\<close> sel Some)
        qed
      qed
    qed
  qed
qed

lemma wf_abandonStep: "wf s \<Longrightarrow> wf (abandonStep i s)"
  by (cases "i < length (senders s) \<and> ctxDone (cancelled s) (sctx (senders s ! i))")
     (auto simp: abandonStep_def elim: wf_frame)

lemma wf_stopStep: "wf s \<Longrightarrow> wf (stopStep c s)"
proof -
  assume w: "wf s"
  show ?thesis
  proof (cases "map_of (forwarders s) c")
    case None then show ?thesis using w by (simp add: stopStep_def)
  next
    case (Some f)
    show ?thesis
    proof (cases "fpc f \<noteq> Returned \<and>
             (ctxDone (cancelled s) (fctx f) \<or> (fpc f = Selecting \<and> c \<in> closed s))")
      case False then show ?thesis using w Some by (auto simp add: stopStep_def)
    next
      case True
      show ?thesis
        by (rule wf_pc_update [OF w Some, where x = Returned])
           (use True in \<open>auto simp add: stopStep_def Some\<close>)
    qed
  qed
qed

lemma wf_deliverStep: "wf s \<Longrightarrow> wf (deliverStep c s)"
proof -
  assume w: "wf s"
  show ?thesis
  proof (cases "map_of (forwarders s) c")
    case None then show ?thesis using w by (simp add: deliverStep_def)
  next
    case (Some f)
    show ?thesis
    proof (cases "fpc f")
      case (Forwarding tv)
      show ?thesis
        by (rule wf_pc_update [OF w Some, where x = Selecting])
           (auto simp add: deliverStep_def Some Forwarding)
    qed (use w Some in \<open>simp_all add: deliverStep_def\<close>)
  qed
qed

lemma wf_cancel: "wf s \<Longrightarrow> wf (cancel c s)"
  by (erule wf_frame) (simp_all add: cancel_def)

lemma wf_publish: "wf s \<Longrightarrow> wf (snd (PublishToScope c T v s))"
  by (erule wf_frame) (simp_all add: PublishToScope_def split: option.splits)

lemma wf_unsub: assumes w: "wf s" shows "wf (unsub u s)"
proof -
  obtain k i fc where u: "u = UnsubFn k i fc" by (cases u)
  let ?s' = "unsub u s"
  have wk: "wf_keys s" and wr: "wf_reg s" and wfw: "wf_fwd s" using w by (simp_all add: wf_def)
  have d: "distinct (map fst (subscribers s))" using wk by (simp add: wf_keys_def)
  have sub: "\<exists>m. (k', m) \<in> set (subscribers s) \<and> set m' \<subseteq> set m \<and> distinct (map fst m')"
    if a: "(k', m') \<in> set (subscribers ?s')" for k' m'
  proof -
    from a have "(k', m') \<in> set (AList.map_entry k (Delete i) (subscribers s))" by (simp add: u)
    from in_map_entry [OF d this]
    have "(k', m') \<in> set (subscribers s) \<or> (\<exists>v. (k, v) \<in> set (subscribers s) \<and> (k', m') = (k, Delete i v))"
      by blast
    then show ?thesis
    proof
      assume "(k', m') \<in> set (subscribers s)"
      then show ?thesis using wk unfolding wf_keys_def by blast
    next
      assume "\<exists>v. (k, v) \<in> set (subscribers s) \<and> (k', m') = (k, Delete i v)"
      then obtain v where v: "(k, v) \<in> set (subscribers s)" "k' = k" "m' = AList.delete i v"
        by (auto simp: Delete_def)
      have "distinct (map fst v)" using wk v(1) unfolding wf_keys_def by blast
      then have "distinct (map fst m')" using v(3) by (simp add: distinct_delete)
      moreover have "set m' \<subseteq> set v" using v(3) in_delete [of _ i v] by blast
      ultimately show ?thesis using v by blast
    qed
  qed
  have k: "wf_keys ?s'"
    unfolding wf_keys_def
  proof (intro conjI allI impI)
    show "distinct (map fst (subscribers ?s'))" using d by (simp add: u map_fst_map_entry)
  next
    fix k' m' assume "(k', m') \<in> set (subscribers ?s')"
    from sub [OF this] show "distinct (map fst m')" by blast
  qed
  have r: "wf_reg ?s'"
  proof (rule wf_regI)
    fix k' m' i' c' assume a: "(k', m') \<in> set (subscribers ?s')" "(i', c') \<in> set m'"
    from sub [OF a(1)] obtain m where m: "(k', m) \<in> set (subscribers s)" "set m' \<subseteq> set m" by blast
    then have "(i', c') \<in> set m" using a(2) by blast
    from wf_regD [OF wr m(1) this]
    show "c' = UntypedCh i' \<and> (\<exists>f. map_of (forwarders ?s') c' = Some f \<and> typeKey (ftype f) = k')"
      by (auto simp add: u)
  qed
  have f: "wf_fwd ?s'" using wfw by (simp add: wf_fwd_def u)
  have cl: "wf_closed ?s'" using w by (simp add: wf_def wf_closed_def u)
  show ?thesis using k r f cl by (simp add: wf_def)
qed

lemma subscribe_state:
  assumes "hashable T"
  shows "snd (SubscribeToScope c T s) =
     s\<lparr> next_uuid := Suc (next_uuid s),
        subscribers := AList.update (typeKey T)
           (AList.update (next_uuid s) (UntypedCh (next_uuid s))
              (case map_of (subscribers s) (typeKey T) of None \<Rightarrow> [] | Some m \<Rightarrow> m))
           (case map_of (subscribers s) (typeKey T) of
              None \<Rightarrow> subscribers s @ [(typeKey T, [])] | Some m \<Rightarrow> subscribers s),
        forwarders := AList.update (UntypedCh (next_uuid s))
           \<lparr> fctx = WithCancel c (next_uuid s), fout = TypedCh (next_uuid s), ftype = T, fpc = Selecting \<rparr>
           (forwarders s) \<rparr>"
  using assms
  by (simp add: SubscribeToScope_def Let_def LoadOrStore_def Store_def split: option.splits)

lemma subscribe_result:
  assumes "hashable T"
  shows "fst (SubscribeToScope c T s) =
     Inr (TypedCh (next_uuid s), UnsubFn (typeKey T) (next_uuid s) (WithCancel c (next_uuid s)))"
  using assms
  by (simp add: SubscribeToScope_def Let_def LoadOrStore_def split: option.splits prod.splits)


lemma wf_subscribe: assumes w: "wf s" shows "wf (snd (SubscribeToScope c T s))"
proof (cases "hashable T")
  case False
  have wk: "wf_keys s" and wr: "wf_reg s" and wfw: "wf_fwd s" using w by (simp_all add: wf_def)
  let ?s' = "snd (SubscribeToScope c T s)"
  have e: "subscribers ?s' = subscribers s" "forwarders ?s' = forwarders s"
          "next_uuid ?s' = Suc (next_uuid s)" "closed ?s' = closed s"
    using False by (simp_all add: SubscribeToScope_def Let_def)
  have "wf_closed ?s'" using w by (simp add: wf_def wf_closed_def e)
  moreover
  have "wf_keys ?s'" using wk by (simp add: wf_keys_def e)
  moreover have "wf_reg ?s'" using wr by (simp add: wf_reg_def e)
  moreover have "wf_fwd ?s'"
  proof (rule wf_fwdI)
    fix c' f' assume "(c', f') \<in> set (forwarders ?s')"
    then have "(c', f') \<in> set (forwarders s)" by (simp add: e)
    from wf_fwdD [OF wfw this]
    show "\<exists>i p. c' = UntypedCh i \<and> i < next_uuid ?s' \<and> fout f' = TypedCh i \<and> fctx f' = WithCancel p i"
      by (auto simp: e)
  qed
  ultimately show ?thesis by (simp add: wf_def)
next
  case True
  have wk: "wf_keys s" and wr: "wf_reg s" and wfw: "wf_fwd s" using w by (simp_all add: wf_def)
  let ?id = "next_uuid s"
  let ?k = "typeKey T"
  let ?m0 = "case map_of (subscribers s) ?k of None \<Rightarrow> [] | Some m \<Rightarrow> m"
  let ?subs0 = "case map_of (subscribers s) ?k of
              None \<Rightarrow> subscribers s @ [(?k, [])] | Some m \<Rightarrow> subscribers s"
  let ?M = "AList.update ?id (UntypedCh ?id) ?m0"
  let ?nf = "\<lparr> fctx = WithCancel c ?id, fout = TypedCh ?id, ftype = T, fpc = Selecting \<rparr> :: 'a forwarder"
  let ?s' = "snd (SubscribeToScope c T s)"
  have e: "subscribers ?s' = AList.update ?k ?M ?subs0"
          "forwarders ?s' = AList.update (UntypedCh ?id) ?nf (forwarders s)"
          "next_uuid ?s' = Suc ?id" "closed ?s' = closed s"
    by (simp_all add: subscribe_state [OF True])
  have m0: "?m0 = [] \<or> (?k, ?m0) \<in> set (subscribers s)"
    by (auto split: option.splits dest: map_of_SomeD)
  have dm0: "distinct (map fst ?m0)"
    using m0 wk unfolding wf_keys_def by auto
  have dM: "distinct (map fst ?M)" using dm0 by (rule distinct_update)
  have dsubs0: "distinct (map fst ?subs0)"
    using wk unfolding wf_keys_def
    by (auto split: option.splits simp: map_of_eq_None_iff)
  have mem: "(k', m') \<in> set (subscribers s) \<or> (k', m') = (?k, []) \<or> (k', m') = (?k, ?M)"
    if "(k', m') \<in> set (subscribers ?s')" for k' m'
  proof -
    from that have "(k', m') = (?k, ?M) \<or> (k', m') \<in> set ?subs0"
      unfolding e by (rule in_update)
    then show ?thesis by (auto split: option.splits)
  qed
  have k: "wf_keys ?s'"
    unfolding wf_keys_def
  proof (intro conjI allI impI)
    show "distinct (map fst (subscribers ?s'))"
      unfolding e using dsubs0 by (rule distinct_update)
  next
    fix k' m' assume "(k', m') \<in> set (subscribers ?s')"
    from mem [OF this] show "distinct (map fst m')"
      using wk dM unfolding wf_keys_def by auto
  qed
  have old: "\<exists>f. map_of (forwarders ?s') c' = Some f \<and> typeKey (ftype f) = k'"
    if "map_of (forwarders s) c' = Some g" "typeKey (ftype g) = k'" for c' g k'
  proof -
    from wf_fwd_lookup [OF wfw that(1)] have "c' \<noteq> UntypedCh ?id" by auto
    then show ?thesis using that by (simp add: e update_conv')
  qed
  have r: "wf_reg ?s'"
  proof (rule wf_regI)
    fix k' m' i' c' assume a: "(k', m') \<in> set (subscribers ?s')" "(i', c') \<in> set m'"
    from mem [OF a(1)]
    consider "(k', m') \<in> set (subscribers s)" | "(k', m') = (?k, [])" | "(k', m') = (?k, ?M)"
      by blast
    then show "c' = UntypedCh i' \<and> (\<exists>f. map_of (forwarders ?s') c' = Some f \<and> typeKey (ftype f) = k')"
    proof cases
      case 1
      from wf_regD [OF wr 1 a(2)] old show ?thesis by blast
    next
      case 2
      then show ?thesis using a(2) by simp
    next
      case 3
      then have "(i', c') \<in> set ?M" "k' = ?k" using a(2) by simp_all
      from in_update [OF this(1)]
      have "(i', c') = (?id, UntypedCh ?id) \<or> (i', c') \<in> set ?m0" .
      then show ?thesis
      proof
        assume "(i', c') = (?id, UntypedCh ?id)"
        then show ?thesis using \<open>k' = ?k\<close> by (simp add: e update_conv')
      next
        assume b: "(i', c') \<in> set ?m0"
        then have "?m0 \<noteq> []" by (metis empty_iff empty_set)
        then have "(?k, ?m0) \<in> set (subscribers s)" using m0 by blast
        from wf_regD [OF wr this b] old \<open>k' = ?k\<close> show ?thesis by blast
      qed
    qed
  qed
  have f: "wf_fwd ?s'"
  proof (rule wf_fwdI)
    fix c' f' assume "(c', f') \<in> set (forwarders ?s')"
    then have "(c', f') = (UntypedCh ?id, ?nf) \<or> (c', f') \<in> set (forwarders s)"
      unfolding e by (rule in_update)
    then show "\<exists>i p. c' = UntypedCh i \<and> i < next_uuid ?s' \<and> fout f' = TypedCh i \<and> fctx f' = WithCancel p i"
    proof
      assume "(c', f') = (UntypedCh ?id, ?nf)"
      then show ?thesis by (simp add: e)
    next
      assume "(c', f') \<in> set (forwarders s)"
      from wf_fwdD [OF wfw this] show ?thesis by (auto simp: e)
    qed
  qed
  have cl: "wf_closed ?s'"
    unfolding wf_closed_def
  proof (intro allI impI)
    fix c' f' assume a: "(c', f') \<in> set (forwarders ?s')" "fpc f' = Returned"
    then have "(c', f') = (UntypedCh ?id, ?nf) \<or> (c', f') \<in> set (forwarders s)"
      unfolding e by (intro in_update)
    then have "(c', f') \<in> set (forwarders s)" using a(2) by auto
    then show "fout f' \<in> closed ?s'" using w a(2) unfolding wf_def wf_closed_def e by blast
  qed
  show ?thesis using k r f cl by (simp add: wf_def)
qed

lemma wf_step: "wf s \<Longrightarrow> wf (step a s)"
  by (cases a)
     (simp_all add: step_def wf_subscribe wf_publish wf_unsub wf_cancel wf_sendStep
        wf_abandonStep wf_stopStep wf_deliverStep)

lemma wf_run: "wf s \<Longrightarrow> wf (run as s)"
  unfolding run_def by (induction as arbitrary: s) (simp_all add: wf_step)

section \<open>Concrete and interface type parameters\<close>

lemma implements_iface: "implements C I \<Longrightarrow> is_iface I \<and> \<not> is_iface C"
  by (simp add: implements_def)

lemma publish_new_senders:
  "\<exists>new. senders (snd (PublishToScope c T v s)) = senders s @ new \<and>
     (\<forall>sd \<in> set new. \<exists>subMap i. Load (typeKey T) (subscribers s) = Some subMap \<and>
        (i, dest sd) \<in> set subMap)"
proof (cases "hashable T")
  case False
  then show ?thesis by (simp add: PublishToScope_def)
next
  case True
  show ?thesis
  proof (cases "Load (typeKey T) (subscribers s)")
    case None
    then show ?thesis using True by (simp add: PublishToScope_def)
  next
    case (Some subMap)
    show ?thesis
      unfolding publish_senders [OF True Some]
      by (rule exI [of _ "map (\<lambda>(_, value). \<lparr> dest = value, val = v, sctx = c \<rparr>) subMap"])
         (auto simp: Some)
  qed
qed

lemma send_deliver:
  assumes "crashed s = None" "n < length (senders s)"
    "senders s ! n = \<lparr> dest = ch, val = v, sctx = c \<rparr>"
    "map_of (forwarders s) ch = Some f" "fpc f = Selecting" "assertType (ftype f) v = Some v"
  shows "received (step (Deliver ch) (step (Send n) s)) = received s @ [(fout f, v)] \<and>
         crashed (step (Deliver ch) (step (Send n) s)) = None"
proof -
  let ?s1 = "s\<lparr> senders := remove_nth n (senders s),
               forwarders := AList.update ch (f\<lparr> fpc := Forwarding v \<rparr>) (forwarders s) \<rparr>"
  have 1: "step (Send n) s = ?s1"
    using assms by (simp add: step_def sendStep_def Let_def)
  have 2: "map_of (forwarders ?s1) ch = Some (f\<lparr> fpc := Forwarding v \<rparr>)"
    by (simp add: update_conv')
  show ?thesis
    unfolding 1 using assms(1) 2 by (simp add: step_def deliverStep_def)
qed

text \<open>
  What holds of a publish under a concrete type: it starts one sender for each entry of
  the subscriber set under the zero of that type, and none of them goes to the endpoint of
  a subscriber of an interface type.
\<close>

lemma concrete_publish_routing:
  assumes "wf s" "crashed s = None" "\<not> is_iface C" "hashable C"
    "map_of (forwarders s) ch = Some f" "is_iface (ftype f)"
  shows "typeKey C = ZeroOf C \<and>
         senders (step (Publish c C (Box C x)) s) = senders s @
           map (\<lambda>(_, value). \<lparr> dest = value, val = Box C x, sctx = c \<rparr>)
             (case Load (ZeroOf C) (subscribers s) of None \<Rightarrow> [] | Some m \<Rightarrow> m) \<and>
         (\<forall>sd \<in> set (drop (length (senders s)) (senders (step (Publish c C (Box C x)) s))).
            dest sd \<noteq> ch)"
proof -
  have key: "typeKey C = ZeroOf C" using assms(3) by (simp add: typeKey_def)
  have ty: "hasType (Box C x) C" using assms(3) by simp
  have wr: "wf_reg s" using assms(1) by (simp add: wf_def)
  let ?m = "case Load (ZeroOf C) (subscribers s) of None \<Rightarrow> [] | Some m \<Rightarrow> m"
  let ?new = "map (\<lambda>(_, value). \<lparr> dest = value, val = Box C x, sctx = c \<rparr>) ?m"
  have st: "senders (step (Publish c C (Box C x)) s) = senders s @ ?new"
    using assms(2,4) ty key
    by (simp add: step_def PublishToScope_def split: option.splits)
  have "dest sd \<noteq> ch" if sd: "sd \<in> set ?new" for sd
  proof (cases "Load (ZeroOf C) (subscribers s)")
    case None
    then show ?thesis using sd by simp
  next
    case (Some m)
    then have mem: "(ZeroOf C, m) \<in> set (subscribers s)"
      by (auto simp: Load_def dest: map_of_SomeD)
    from sd Some obtain j where j: "(j, dest sd) \<in> set m" by auto
    show ?thesis
    proof
      assume e: "dest sd = ch"
      from wf_regD [OF wr mem j] obtain g where
        "map_of (forwarders s) (dest sd) = Some g" "typeKey (ftype g) = ZeroOf C" by blast
      then have "typeKey (ftype f) = ZeroOf C" using e assms(5) by simp
      then show False using assms(6) by (simp add: typeKey_def)
    qed
  qed
  then show ?thesis using key st by simp
qed

text \<open>
  C2 (a publish under the concrete type is not seen by a subscriber of the interface; a
  publish of the same value under the interface type is delivered to the subscribers of the
  interface). The first half holds (\<open>concrete_publish_routing\<close>). The second half does
  not hold on the code: every interface type has the nil key, so with a subscriber of
  \<open>error\<close> and a subscriber of \<open>testInterface\<close> on one scope, a publish of a
  \<open>testImpl\<close> under \<open>testInterface\<close> also starts a sender for the endpoint of the
  \<open>error\<close> subscriber. There the assertion to \<open>error\<close> fails, the forwarder panics and
  the process dies; the subscriber of \<open>testInterface\<close> has received nothing, and
  nothing moves after the panic (\<open>crashed_run\<close>).
\<close>

theorem interface_publish_crashes:
  "implements testImpl testInterface \<and> \<not> implements testImpl errorT \<and>
   hasType (Box testImpl (5::int)) testInterface \<and>
   senders (run [Subscribe Background errorT, Subscribe Background testInterface,
                 Publish Background testInterface (Box testImpl 5)] (NewEventScope :: int state))
     = [\<lparr> dest = UntypedCh 0, val = Box testImpl 5, sctx = Background \<rparr>,
        \<lparr> dest = UntypedCh 1, val = Box testImpl 5, sctx = Background \<rparr>] \<and>
   crashed (run [Subscribe Background errorT, Subscribe Background testInterface,
                 Publish Background testInterface (Box testImpl 5), Send 0]
              (NewEventScope :: int state)) = Some MismatchedType \<and>
   received (run [Subscribe Background errorT, Subscribe Background testInterface,
                 Publish Background testInterface (Box testImpl 5), Send 0]
              (NewEventScope :: int state)) = []"
  by (simp add: model_defs testInterface_def testImpl_def errorT_def)

section \<open>After unsub: the channel closes and later publishes are not seen\<close>

lemma set_remove_nth: "set (remove_nth n xs) \<subseteq> set xs"
  unfolding remove_nth_def using set_take_subset [of n xs] set_drop_subset [of "Suc n" xs] by auto

lemma assertType_Some: "assertType T a = Some b \<Longrightarrow> b = a"
  by (cases a) (auto split: if_splits)

lemma unsub_entries:
  assumes "distinct (map fst (subscribers s))" "(k', m') \<in> set (subscribers (unsub u s))"
  shows "\<exists>m. (k', m) \<in> set (subscribers s) \<and> set m' \<subseteq> set m"
proof -
  obtain k i fc where u: "u = UnsubFn k i fc" by (cases u)
  from assms(2) have "(k', m') \<in> set (AList.map_entry k (Delete i) (subscribers s))" by (simp add: u)
  from in_map_entry [OF assms(1) this]
  have "(k', m') \<in> set (subscribers s) \<or> (\<exists>v. (k, v) \<in> set (subscribers s) \<and> (k', m') = (k, Delete i v))"
    by blast
  then show ?thesis
  proof
    assume "(k', m') \<in> set (subscribers s)" then show ?thesis by blast
  next
    assume "\<exists>v. (k, v) \<in> set (subscribers s) \<and> (k', m') = (k, Delete i v)"
    then obtain v where v: "(k, v) \<in> set (subscribers s)" "k' = k" "m' = AList.delete i v"
      by (auto simp: Delete_def)
    have "set m' \<subseteq> set v" using v(3) in_delete [of _ i v] by blast
    then show ?thesis using v by blast
  qed
qed

lemma subscribe_entries:
  assumes "(k', m') \<in> set (subscribers (snd (SubscribeToScope c T s)))" "(i', c') \<in> set m'"
  shows "(i', c') = (next_uuid s, UntypedCh (next_uuid s)) \<or>
         (\<exists>m. (k', m) \<in> set (subscribers s) \<and> (i', c') \<in> set m)"
proof (cases "hashable T")
  case False
  then have "subscribers (snd (SubscribeToScope c T s)) = subscribers s"
    by (simp add: SubscribeToScope_def Let_def)
  then show ?thesis using assms by auto
next
  case True
  let ?id = "next_uuid s"
  let ?k = "typeKey T"
  let ?m0 = "case map_of (subscribers s) ?k of None \<Rightarrow> [] | Some m \<Rightarrow> m"
  let ?subs0 = "case map_of (subscribers s) ?k of
              None \<Rightarrow> subscribers s @ [(?k, [])] | Some m \<Rightarrow> subscribers s"
  let ?M = "AList.update ?id (UntypedCh ?id) ?m0"
  have e: "subscribers (snd (SubscribeToScope c T s)) = AList.update ?k ?M ?subs0"
    by (simp add: subscribe_state [OF True])
  have m0: "?m0 = [] \<or> (?k, ?m0) \<in> set (subscribers s)"
    by (auto split: option.splits dest: map_of_SomeD)
  from assms(1) have "(k', m') = (?k, ?M) \<or> (k', m') \<in> set ?subs0"
    unfolding e by (rule in_update)
  then consider "(k', m') \<in> set (subscribers s)" | "(k', m') = (?k, [])" | "(k', m') = (?k, ?M)"
    by (auto split: option.splits)
  then show ?thesis
  proof cases
    case 1 then show ?thesis using assms(2) by blast
  next
    case 2 then show ?thesis using assms(2) by simp
  next
    case 3
    then have "(i', c') \<in> set ?M" "k' = ?k" using assms(2) by simp_all
    from in_update [OF this(1)]
    have "(i', c') = (?id, UntypedCh ?id) \<or> (i', c') \<in> set ?m0" .
    then show ?thesis
    proof
      assume "(i', c') = (?id, UntypedCh ?id)" then show ?thesis by simp
    next
      assume b: "(i', c') \<in> set ?m0"
      then have "?m0 \<noteq> []" by (metis empty_iff empty_set)
      then have "(?k, ?m0) \<in> set (subscribers s)" using m0 by blast
      then show ?thesis using b \<open>k' = ?k\<close> by blast
    qed
  qed
qed

lemma subscribe_frame:
  "senders (snd (SubscribeToScope c T s)) = senders s"
  "received (snd (SubscribeToScope c T s)) = received s"
  "cancelled (snd (SubscribeToScope c T s)) = cancelled s"
  "closed (snd (SubscribeToScope c T s)) = closed s"
  "next_uuid (snd (SubscribeToScope c T s)) = Suc (next_uuid s)"
  "ch \<noteq> UntypedCh (next_uuid s) \<Longrightarrow>
     map_of (forwarders (snd (SubscribeToScope c T s))) ch = map_of (forwarders s) ch"
  by (cases "hashable T";
      simp add: SubscribeToScope_def Let_def LoadOrStore_def update_conv' split: option.splits prod.splits)+

lemma quietI:
  assumes "wf s" "i < next_uuid s"
    "\<And>k m j. (k, m) \<in> set (subscribers s) \<Longrightarrow> (j, UntypedCh i) \<notin> set m"
    "\<And>sd. sd \<in> set (senders s) \<Longrightarrow> dest sd = UntypedCh i \<Longrightarrow> val sd \<noteq> v"
    "\<And>f. map_of (forwarders s) (UntypedCh i) = Some f \<Longrightarrow> fpc f \<noteq> Forwarding v"
    "(TypedCh i, v) \<notin> set (received s)"
  shows "quiet s i v"
  unfolding quiet_def registered_def in_flight_def using assms by blast

lemma quietD:
  assumes "quiet s i v"
  shows "wf s" "i < next_uuid s"
    "\<And>k m j. (k, m) \<in> set (subscribers s) \<Longrightarrow> (j, UntypedCh i) \<notin> set m"
    "\<And>sd. sd \<in> set (senders s) \<Longrightarrow> dest sd = UntypedCh i \<Longrightarrow> val sd \<noteq> v"
    "\<And>f. map_of (forwarders s) (UntypedCh i) = Some f \<Longrightarrow> fpc f \<noteq> Forwarding v"
    "(TypedCh i, v) \<notin> set (received s)"
  using assms unfolding quiet_def registered_def in_flight_def by blast+

lemma quiet_subscribe: assumes q: "quiet s i v" shows "quiet (snd (SubscribeToScope c T s)) i v"
proof (rule quietI)
  note d = quietD [OF q]
  let ?s' = "snd (SubscribeToScope c T s)"
  show "wf ?s'" using d(1) by (rule wf_subscribe)
  show "i < next_uuid ?s'" using d(2) by (simp add: subscribe_frame)
  show "(j, UntypedCh i) \<notin> set m" if "(k, m) \<in> set (subscribers ?s')" for k m j
  proof
    assume "(j, UntypedCh i) \<in> set m"
    from subscribe_entries [OF that this] d(2,3) show False by auto
  qed
  have ne: "UntypedCh i \<noteq> UntypedCh (next_uuid s)" using d(2) by simp
  show "val sd \<noteq> v" if "sd \<in> set (senders ?s')" "dest sd = UntypedCh i" for sd
    using that d(4) by (simp add: subscribe_frame)
  show "fpc f \<noteq> Forwarding v" if "map_of (forwarders ?s') (UntypedCh i) = Some f" for f
    using that d(5) by (simp add: subscribe_frame(6) [OF ne])
  show "(TypedCh i, v) \<notin> set (received ?s')" using d(6) by (simp add: subscribe_frame)
qed

lemma publish_frame:
  "subscribers (snd (PublishToScope c T x s)) = subscribers s"
  "forwarders (snd (PublishToScope c T x s)) = forwarders s"
  "received (snd (PublishToScope c T x s)) = received s"
  "cancelled (snd (PublishToScope c T x s)) = cancelled s"
  "closed (snd (PublishToScope c T x s)) = closed s"
  "next_uuid (snd (PublishToScope c T x s)) = next_uuid s"
  "crashed (snd (PublishToScope c T x s)) = crashed s"
  by (simp_all add: PublishToScope_def split: option.splits)

lemma quiet_publish: assumes q: "quiet s i v" shows "quiet (snd (PublishToScope c T x s)) i v"
proof (rule quietI)
  note d = quietD [OF q]
  let ?s' = "snd (PublishToScope c T x s)"
  show "wf ?s'" using d(1) by (rule wf_publish)
  show "i < next_uuid ?s'" using d(2) by (simp add: publish_frame)
  show "(j, UntypedCh i) \<notin> set m" if "(k, m) \<in> set (subscribers ?s')" for k m j
    using that d(3) by (simp add: publish_frame)
  show "val sd \<noteq> v" if a: "sd \<in> set (senders ?s')" "dest sd = UntypedCh i" for sd
  proof -
    from publish_new_senders [of c T x s]
    obtain new where new: "senders ?s' = senders s @ new"
      "\<forall>sd \<in> set new. \<exists>subMap j. Load (typeKey T) (subscribers s) = Some subMap \<and>
        (j, dest sd) \<in> set subMap" by blast
    have "sd \<notin> set new"
    proof
      assume "sd \<in> set new"
      with new(2) obtain m j where m: "Load (typeKey T) (subscribers s) = Some m" "(j, dest sd) \<in> set m"
        by blast
      then have "(typeKey T, m) \<in> set (subscribers s)" by (auto simp: Load_def dest: map_of_SomeD)
      from d(3) [OF this] m(2) a(2) show False by simp
    qed
    then have "sd \<in> set (senders s)" using a(1) new(1) by simp
    then show ?thesis using d(4) a(2) by blast
  qed
  show "fpc f \<noteq> Forwarding v" if "map_of (forwarders ?s') (UntypedCh i) = Some f" for f
    using that d(5) by (simp add: publish_frame)
  show "(TypedCh i, v) \<notin> set (received ?s')" using d(6) by (simp add: publish_frame)
qed

lemma quiet_unsub: assumes q: "quiet s i v" shows "quiet (unsub u s) i v"
proof (rule quietI)
  note d = quietD [OF q]
  have dk: "distinct (map fst (subscribers s))" using d(1) by (simp add: wf_def wf_keys_def)
  show "wf (unsub u s)" using d(1) by (rule wf_unsub)
  show "i < next_uuid (unsub u s)" using d(2) by (simp add: unsub_fields)
  show "(j, UntypedCh i) \<notin> set m" if "(k, m) \<in> set (subscribers (unsub u s))" for k m j
    using unsub_entries [OF dk that] d(3) by blast
  show "val sd \<noteq> v" if "sd \<in> set (senders (unsub u s))" "dest sd = UntypedCh i" for sd
    using that d(4) by (simp add: unsub_fields)
  show "fpc f \<noteq> Forwarding v" if "map_of (forwarders (unsub u s)) (UntypedCh i) = Some f" for f
    using that d(5) by (simp add: unsub_fields)
  show "(TypedCh i, v) \<notin> set (received (unsub u s))" using d(6) by (simp add: unsub_fields)
qed

lemma quiet_cancel: assumes q: "quiet s i v" shows "quiet (cancel c s) i v"
proof (rule quietI)
  note d = quietD [OF q]
  show "wf (cancel c s)" using d(1) by (rule wf_cancel)
  show "i < next_uuid (cancel c s)" using d(2) by (simp add: cancel_fields)
  show "(j, UntypedCh i) \<notin> set m" if "(k, m) \<in> set (subscribers (cancel c s))" for k m j
    using that d(3) by (simp add: cancel_fields)
  show "val sd \<noteq> v" if "sd \<in> set (senders (cancel c s))" "dest sd = UntypedCh i" for sd
    using that d(4) by (simp add: cancel_fields)
  show "fpc f \<noteq> Forwarding v" if "map_of (forwarders (cancel c s)) (UntypedCh i) = Some f" for f
    using that d(5) by (simp add: cancel_fields)
  show "(TypedCh i, v) \<notin> set (received (cancel c s))" using d(6) by (simp add: cancel_fields)
qed

lemma sendStep_cases:
  "sendStep n s = s \<or>
   (\<exists>f X. n < length (senders s) \<and>
      map_of (forwarders s) (dest (senders s ! n)) = Some f \<and>
      (X = Returned \<or> X = Forwarding (val (senders s ! n))) \<and>
      subscribers (sendStep n s) = subscribers s \<and>
      next_uuid (sendStep n s) = next_uuid s \<and>
      received (sendStep n s) = received s \<and>
      cancelled (sendStep n s) = cancelled s \<and>
      closed s \<subseteq> closed (sendStep n s) \<and>
      (X = Returned \<longrightarrow> fout f \<in> closed (sendStep n s)) \<and>
      senders (sendStep n s) = remove_nth n (senders s) \<and>
      forwarders (sendStep n s) =
        AList.update (dest (senders s ! n)) (f\<lparr> fpc := X \<rparr>) (forwarders s))"
proof (cases "n < length (senders s)")
  case False then show ?thesis by (simp add: sendStep_def)
next
  case True
  let ?sd = "senders s ! n"
  show ?thesis
  proof (cases "map_of (forwarders s) (dest ?sd)")
    case None then show ?thesis by (simp add: sendStep_def Let_def)
  next
    case (Some f)
    show ?thesis
    proof (cases "fpc f = Selecting")
      case False then show ?thesis using Some by (simp add: sendStep_def Let_def)
    next
      case sel: True
      show ?thesis
      proof (cases "assertType (ftype f) (val ?sd)")
        case None
        have "\<exists>X. (X = Returned \<or> X = Forwarding (val ?sd)) \<and>
              closed s \<subseteq> closed (sendStep n s) \<and>
              (X = Returned \<longrightarrow> fout f \<in> closed (sendStep n s)) \<and>
              forwarders (sendStep n s) = AList.update (dest ?sd) (f\<lparr> fpc := X \<rparr>) (forwarders s)"
          by (rule exI [of _ Returned]) (auto simp add: sendStep_def Let_def True Some sel None)
        then show ?thesis
          using True Some by (auto simp add: sendStep_def Let_def sel None)
      next
        case tv: (Some tv)
        then have tv': "tv = val ?sd" by (rule assertType_Some)
        have "\<exists>X. (X = Returned \<or> X = Forwarding (val ?sd)) \<and>
              closed s \<subseteq> closed (sendStep n s) \<and>
              (X = Returned \<longrightarrow> fout f \<in> closed (sendStep n s)) \<and>
              forwarders (sendStep n s) = AList.update (dest ?sd) (f\<lparr> fpc := X \<rparr>) (forwarders s)"
          by (rule exI [of _ "Forwarding (val ?sd)"])
             (use tv' in \<open>auto simp add: sendStep_def Let_def True Some sel tv\<close>)
        then show ?thesis
          using True Some by (auto simp add: sendStep_def Let_def sel tv)
      qed
    qed
  qed
qed

lemma stopStep_cases:
  "stopStep c s = s \<or>
   (\<exists>f. map_of (forwarders s) c = Some f \<and>
      stopStep c s = s\<lparr> forwarders := AList.update c (f\<lparr> fpc := Returned \<rparr>) (forwarders s),
                        closed := insert (fout f) (closed s) \<rparr>)"
  by (auto simp: stopStep_def split: option.splits)

lemma deliverStep_cases:
  "deliverStep c s = s \<or>
   (\<exists>f tv. map_of (forwarders s) c = Some f \<and> fpc f = Forwarding tv \<and>
      deliverStep c s = s\<lparr> forwarders := AList.update c (f\<lparr> fpc := Selecting \<rparr>) (forwarders s),
                           received := received s @ [(fout f, tv)] \<rparr>)"
  by (auto simp: deliverStep_def split: option.splits pc.splits)

lemma abandonStep_cases:
  "abandonStep n s = s \<or> abandonStep n s = s\<lparr> senders := remove_nth n (senders s) \<rparr>"
  by (simp add: abandonStep_def)

lemma quiet_sendStep: assumes q: "quiet s i v" shows "quiet (sendStep n s) i v"
proof -
  note d = quietD [OF q]
  from sendStep_cases [of n s] show ?thesis
  proof
    assume "sendStep n s = s" then show ?thesis using q by simp
  next
    assume "\<exists>f X. n < length (senders s) \<and>
      map_of (forwarders s) (dest (senders s ! n)) = Some f \<and>
      (X = Returned \<or> X = Forwarding (val (senders s ! n))) \<and>
      subscribers (sendStep n s) = subscribers s \<and>
      next_uuid (sendStep n s) = next_uuid s \<and>
      received (sendStep n s) = received s \<and>
      cancelled (sendStep n s) = cancelled s \<and>
      closed s \<subseteq> closed (sendStep n s) \<and>
      (X = Returned \<longrightarrow> fout f \<in> closed (sendStep n s)) \<and>
      senders (sendStep n s) = remove_nth n (senders s) \<and>
      forwarders (sendStep n s) =
        AList.update (dest (senders s ! n)) (f\<lparr> fpc := X \<rparr>) (forwarders s)"
    then obtain f X where n: "n < length (senders s)"
      and f: "map_of (forwarders s) (dest (senders s ! n)) = Some f"
      and X: "X = Returned \<or> X = Forwarding (val (senders s ! n))"
      and e: "subscribers (sendStep n s) = subscribers s" "next_uuid (sendStep n s) = next_uuid s"
             "received (sendStep n s) = received s"
             "senders (sendStep n s) = remove_nth n (senders s)"
             "forwarders (sendStep n s) =
                AList.update (dest (senders s ! n)) (f\<lparr> fpc := X \<rparr>) (forwarders s)"
      by blast
    let ?sd = "senders s ! n"
    have sdin: "?sd \<in> set (senders s)" using n by simp
    show ?thesis
    proof (rule quietI)
      show "wf (sendStep n s)" using d(1) by (rule wf_sendStep)
      show "i < next_uuid (sendStep n s)" using d(2) by (simp add: e)
      show "(j, UntypedCh i) \<notin> set m" if "(k, m) \<in> set (subscribers (sendStep n s))" for k m j
        using that d(3) by (simp add: e)
      show "val sd \<noteq> v" if "sd \<in> set (senders (sendStep n s))" "dest sd = UntypedCh i" for sd
      proof -
        have "sd \<in> set (senders s)" using that(1) set_remove_nth [of n "senders s"] by (auto simp: e)
        then show ?thesis using d(4) that(2) by blast
      qed
      show "fpc g \<noteq> Forwarding v" if a: "map_of (forwarders (sendStep n s)) (UntypedCh i) = Some g" for g
      proof (cases "dest ?sd = UntypedCh i")
        case True
        then have "g = f\<lparr> fpc := X \<rparr>" using a by (simp add: e update_conv')
        moreover have "val ?sd \<noteq> v" using d(4) [OF sdin True] .
        ultimately show ?thesis using X by auto
      next
        case False
        then have "map_of (forwarders s) (UntypedCh i) = Some g" using a by (simp add: e update_conv')
        then show ?thesis by (rule d(5))
      qed
      show "(TypedCh i, v) \<notin> set (received (sendStep n s))" using d(6) by (simp add: e)
    qed
  qed
qed

lemma quiet_abandonStep: assumes q: "quiet s i v" shows "quiet (abandonStep n s) i v"
proof -
  note d = quietD [OF q]
  from abandonStep_cases [of n s] show ?thesis
  proof
    assume "abandonStep n s = s" then show ?thesis using q by simp
  next
    assume e: "abandonStep n s = s\<lparr> senders := remove_nth n (senders s) \<rparr>"
    show ?thesis
    proof (rule quietI)
      show "wf (abandonStep n s)" using d(1) by (rule wf_abandonStep)
      show "i < next_uuid (abandonStep n s)" using d(2) by (simp add: e)
      show "(j, UntypedCh i) \<notin> set m" if "(k, m) \<in> set (subscribers (abandonStep n s))" for k m j
        using that d(3) by (simp add: e)
      show "val sd \<noteq> v" if "sd \<in> set (senders (abandonStep n s))" "dest sd = UntypedCh i" for sd
      proof -
        have "sd \<in> set (senders s)" using that(1) set_remove_nth [of n "senders s"] by (auto simp: e)
        then show ?thesis using d(4) that(2) by blast
      qed
      show "fpc g \<noteq> Forwarding v" if "map_of (forwarders (abandonStep n s)) (UntypedCh i) = Some g" for g
        using that d(5) by (simp add: e)
      show "(TypedCh i, v) \<notin> set (received (abandonStep n s))" using d(6) by (simp add: e)
    qed
  qed
qed

lemma quiet_stopStep: assumes q: "quiet s i v" shows "quiet (stopStep c s) i v"
proof -
  note d = quietD [OF q]
  from stopStep_cases [of c s] show ?thesis
  proof
    assume "stopStep c s = s" then show ?thesis using q by simp
  next
    assume "\<exists>f. map_of (forwarders s) c = Some f \<and>
      stopStep c s = s\<lparr> forwarders := AList.update c (f\<lparr> fpc := Returned \<rparr>) (forwarders s),
                        closed := insert (fout f) (closed s) \<rparr>"
    then obtain f where f: "map_of (forwarders s) c = Some f"
      and e: "stopStep c s = s\<lparr> forwarders := AList.update c (f\<lparr> fpc := Returned \<rparr>) (forwarders s),
                        closed := insert (fout f) (closed s) \<rparr>" by blast
    show ?thesis
    proof (rule quietI)
      show "wf (stopStep c s)" using d(1) by (rule wf_stopStep)
      show "i < next_uuid (stopStep c s)" using d(2) by (simp add: e)
      show "(j, UntypedCh i) \<notin> set m" if "(k, m) \<in> set (subscribers (stopStep c s))" for k m j
        using that d(3) by (simp add: e)
      show "val sd \<noteq> v" if "sd \<in> set (senders (stopStep c s))" "dest sd = UntypedCh i" for sd
        using that d(4) by (simp add: e)
      show "fpc g \<noteq> Forwarding v" if a: "map_of (forwarders (stopStep c s)) (UntypedCh i) = Some g" for g
      proof (cases "c = UntypedCh i")
        case True
        have "g = f\<lparr> fpc := Returned \<rparr>" using a [unfolded e] by (simp add: update_conv' True)
        then show ?thesis by simp
      next
        case False
        then have "map_of (forwarders s) (UntypedCh i) = Some g" using a by (simp add: e update_conv')
        then show ?thesis by (rule d(5))
      qed
      show "(TypedCh i, v) \<notin> set (received (stopStep c s))" using d(6) by (simp add: e)
    qed
  qed
qed

lemma quiet_deliverStep: assumes q: "quiet s i v" shows "quiet (deliverStep c s) i v"
proof -
  note d = quietD [OF q]
  from deliverStep_cases [of c s] show ?thesis
  proof
    assume "deliverStep c s = s" then show ?thesis using q by simp
  next
    assume "\<exists>f tv. map_of (forwarders s) c = Some f \<and> fpc f = Forwarding tv \<and>
      deliverStep c s = s\<lparr> forwarders := AList.update c (f\<lparr> fpc := Selecting \<rparr>) (forwarders s),
                           received := received s @ [(fout f, tv)] \<rparr>"
    then obtain f tv where f: "map_of (forwarders s) c = Some f" "fpc f = Forwarding tv"
      and e: "deliverStep c s = s\<lparr> forwarders := AList.update c (f\<lparr> fpc := Selecting \<rparr>) (forwarders s),
                           received := received s @ [(fout f, tv)] \<rparr>" by blast
    have wfw: "wf_fwd s" using d(1) by (simp add: wf_def)
    from wf_fwd_lookup [OF wfw f(1)] obtain j p where
      j: "c = UntypedCh j" "fout f = TypedCh j" by blast
    show ?thesis
    proof (rule quietI)
      show "wf (deliverStep c s)" using d(1) by (rule wf_deliverStep)
      show "i < next_uuid (deliverStep c s)" using d(2) by (simp add: e)
      show "(j, UntypedCh i) \<notin> set m" if "(k, m) \<in> set (subscribers (deliverStep c s))" for k m j
        using that d(3) by (simp add: e)
      show "val sd \<noteq> v" if "sd \<in> set (senders (deliverStep c s))" "dest sd = UntypedCh i" for sd
        using that d(4) by (simp add: e)
      show "fpc g \<noteq> Forwarding v" if a: "map_of (forwarders (deliverStep c s)) (UntypedCh i) = Some g" for g
      proof (cases "c = UntypedCh i")
        case True
        have "g = f\<lparr> fpc := Selecting \<rparr>" using a [unfolded e] by (simp add: update_conv' True)
        then show ?thesis by simp
      next
        case False
        then have "map_of (forwarders s) (UntypedCh i) = Some g" using a by (simp add: e update_conv')
        then show ?thesis by (rule d(5))
      qed
      show "(TypedCh i, v) \<notin> set (received (deliverStep c s))"
      proof (cases "j = i")
        case True
        then have "tv \<noteq> v" using d(5) [of f] f j by auto
        then show ?thesis using d(6) unfolding e by simp
      next
        case False
        then show ?thesis using d(6) j(2) unfolding e by simp
      qed
    qed
  qed
qed

lemma quiet_step: "quiet s i v \<Longrightarrow> quiet (step a s) i v"
  by (cases a)
     (simp_all add: step_def quiet_subscribe quiet_publish quiet_unsub quiet_cancel
        quiet_sendStep quiet_abandonStep quiet_stopStep quiet_deliverStep)

lemma quiet_run: "quiet s i v \<Longrightarrow> quiet (run as s) i v"
  unfolding run_def by (induction as arbitrary: s) (simp_all add: quiet_step)

lemma stopping_pres:
  assumes "stopping s i" "next_uuid s \<le> next_uuid s'" "cancelled s \<subseteq> cancelled s'"
    "closed s \<subseteq> closed s'"
    "\<And>f. map_of (forwarders s) (UntypedCh i) = Some f \<Longrightarrow>
       \<exists>X. map_of (forwarders s') (UntypedCh i) = Some (f\<lparr> fpc := X \<rparr>) \<and>
           (X = Returned \<longrightarrow> fpc f = Returned \<or> fout f \<in> closed s')"
  shows "stopping s' i"
proof -
  from assms(1) obtain f p where f: "i < next_uuid s"
    "map_of (forwarders s) (UntypedCh i) = Some f" "fout f = TypedCh i"
    "fctx f = WithCancel p i" "WithCancel p i \<in> cancelled s"
    "fpc f = Returned \<longrightarrow> TypedCh i \<in> closed s"
    unfolding stopping_def by blast
  from assms(5) [OF f(2)] obtain X where
    X: "map_of (forwarders s') (UntypedCh i) = Some (f\<lparr> fpc := X \<rparr>)"
       "X = Returned \<longrightarrow> fpc f = Returned \<or> fout f \<in> closed s'" by blast
  have "fpc (f\<lparr> fpc := X \<rparr>) = Returned \<longrightarrow> TypedCh i \<in> closed s'"
    using X(2) f(3,6) assms(4) by auto
  moreover have "i < next_uuid s'" using f(1) assms(2) by simp
  moreover have "WithCancel p i \<in> cancelled s'" using f(5) assms(3) by blast
  ultimately show ?thesis
    unfolding stopping_def using X(1) f(3,4)
    by (intro conjI exI [of _ "f\<lparr> fpc := X \<rparr>"] exI [of _ p]) simp_all
qed

lemma same_pc: "\<exists>X. Some f = Some (f\<lparr> fpc := X \<rparr>) \<and> (X = Returned \<longrightarrow> fpc f = Returned \<or> P)"
  by (rule exI [of _ "fpc f"]) simp

lemma stopping_subscribe:
  assumes "stopping s i" shows "stopping (snd (SubscribeToScope c T s)) i"
proof (rule stopping_pres [OF assms])
  have "i < next_uuid s" using assms by (simp add: stopping_def)
  then have ne: "UntypedCh i \<noteq> UntypedCh (next_uuid s)" by simp
  show "\<exists>X. map_of (forwarders (snd (SubscribeToScope c T s))) (UntypedCh i) = Some (f\<lparr> fpc := X \<rparr>) \<and>
           (X = Returned \<longrightarrow> fpc f = Returned \<or> fout f \<in> closed (snd (SubscribeToScope c T s)))"
    if "map_of (forwarders s) (UntypedCh i) = Some f" for f
    unfolding subscribe_frame(6) [OF ne] that by (rule same_pc)
qed (simp_all add: subscribe_frame)

lemma stopping_publish:
  assumes "stopping s i" shows "stopping (snd (PublishToScope c T x s)) i"
proof (rule stopping_pres [OF assms])
  show "\<exists>X. map_of (forwarders (snd (PublishToScope c T x s))) (UntypedCh i) = Some (f\<lparr> fpc := X \<rparr>) \<and>
           (X = Returned \<longrightarrow> fpc f = Returned \<or> fout f \<in> closed (snd (PublishToScope c T x s)))"
    if "map_of (forwarders s) (UntypedCh i) = Some f" for f
    unfolding publish_frame that by (rule same_pc)
qed (simp_all add: publish_frame)

lemma unsub_cancelled: "cancelled s \<subseteq> cancelled (unsub u s)"
  by (cases u) auto

lemma stopping_unsub:
  assumes "stopping s i" shows "stopping (unsub u s) i"
proof (rule stopping_pres [OF assms])
  show "\<exists>X. map_of (forwarders (unsub u s)) (UntypedCh i) = Some (f\<lparr> fpc := X \<rparr>) \<and>
           (X = Returned \<longrightarrow> fpc f = Returned \<or> fout f \<in> closed (unsub u s))"
    if "map_of (forwarders s) (UntypedCh i) = Some f" for f
    unfolding unsub_fields that by (rule same_pc)
qed (simp_all add: unsub_fields unsub_cancelled)

lemma stopping_cancel:
  assumes "stopping s i" shows "stopping (cancel c s) i"
proof (rule stopping_pres [OF assms])
  show "\<exists>X. map_of (forwarders (cancel c s)) (UntypedCh i) = Some (f\<lparr> fpc := X \<rparr>) \<and>
           (X = Returned \<longrightarrow> fpc f = Returned \<or> fout f \<in> closed (cancel c s))"
    if "map_of (forwarders s) (UntypedCh i) = Some f" for f
    unfolding cancel_fields that by (rule same_pc)
qed (auto simp add: cancel_def)

lemma stopping_abandonStep:
  assumes "stopping s i" shows "stopping (abandonStep n s) i"
  using abandonStep_cases [of n s]
proof
  assume "abandonStep n s = s" then show ?thesis using assms by simp
next
  assume e: "abandonStep n s = s\<lparr> senders := remove_nth n (senders s) \<rparr>"
  show ?thesis
  proof (rule stopping_pres [OF assms])
    show "\<exists>X. map_of (forwarders (abandonStep n s)) (UntypedCh i) = Some (f\<lparr> fpc := X \<rparr>) \<and>
           (X = Returned \<longrightarrow> fpc f = Returned \<or> fout f \<in> closed (abandonStep n s))"
      if "map_of (forwarders s) (UntypedCh i) = Some f" for f
      using that same_pc [of f] by (simp add: e)
  qed (simp_all add: e)
qed

lemma stopping_sendStep:
  assumes "stopping s i" shows "stopping (sendStep n s) i"
  using sendStep_cases [of n s]
proof
  assume "sendStep n s = s" then show ?thesis using assms by simp
next
  assume "\<exists>f X. n < length (senders s) \<and>
      map_of (forwarders s) (dest (senders s ! n)) = Some f \<and>
      (X = Returned \<or> X = Forwarding (val (senders s ! n))) \<and>
      subscribers (sendStep n s) = subscribers s \<and>
      next_uuid (sendStep n s) = next_uuid s \<and>
      received (sendStep n s) = received s \<and>
      cancelled (sendStep n s) = cancelled s \<and>
      closed s \<subseteq> closed (sendStep n s) \<and>
      (X = Returned \<longrightarrow> fout f \<in> closed (sendStep n s)) \<and>
      senders (sendStep n s) = remove_nth n (senders s) \<and>
      forwarders (sendStep n s) =
        AList.update (dest (senders s ! n)) (f\<lparr> fpc := X \<rparr>) (forwarders s)"
  then obtain f X where f: "map_of (forwarders s) (dest (senders s ! n)) = Some f"
    and e: "next_uuid (sendStep n s) = next_uuid s" "cancelled (sendStep n s) = cancelled s"
           "closed s \<subseteq> closed (sendStep n s)"
           "X = Returned \<longrightarrow> fout f \<in> closed (sendStep n s)"
           "forwarders (sendStep n s) =
              AList.update (dest (senders s ! n)) (f\<lparr> fpc := X \<rparr>) (forwarders s)"
    by blast
  show ?thesis
  proof (rule stopping_pres [OF assms])
    show "\<exists>X. map_of (forwarders (sendStep n s)) (UntypedCh i) = Some (g\<lparr> fpc := X \<rparr>) \<and>
           (X = Returned \<longrightarrow> fpc g = Returned \<or> fout g \<in> closed (sendStep n s))"
      if g: "map_of (forwarders s) (UntypedCh i) = Some g" for g
    proof (cases "dest (senders s ! n) = UntypedCh i")
      case True
      then have "g = f" using f g by simp
      then show ?thesis using e(4) True by (intro exI [of _ X]) (simp add: e(5) update_conv')
    next
      case False
      then show ?thesis using g same_pc [of g] by (simp add: e(5) update_conv')
    qed
  qed (simp_all add: e)
qed

lemma stopping_stopStep:
  assumes "stopping s i" shows "stopping (stopStep c s) i"
  using stopStep_cases [of c s]
proof
  assume "stopStep c s = s" then show ?thesis using assms by simp
next
  assume "\<exists>f. map_of (forwarders s) c = Some f \<and>
      stopStep c s = s\<lparr> forwarders := AList.update c (f\<lparr> fpc := Returned \<rparr>) (forwarders s),
                        closed := insert (fout f) (closed s) \<rparr>"
  then obtain f where f: "map_of (forwarders s) c = Some f"
    and e: "stopStep c s = s\<lparr> forwarders := AList.update c (f\<lparr> fpc := Returned \<rparr>) (forwarders s),
                        closed := insert (fout f) (closed s) \<rparr>" by blast
  show ?thesis
  proof (rule stopping_pres [OF assms])
    show "\<exists>X. map_of (forwarders (stopStep c s)) (UntypedCh i) = Some (g\<lparr> fpc := X \<rparr>) \<and>
           (X = Returned \<longrightarrow> fpc g = Returned \<or> fout g \<in> closed (stopStep c s))"
      if g: "map_of (forwarders s) (UntypedCh i) = Some g" for g
    proof (cases "c = UntypedCh i")
      case True
      then have "g = f" using f g by simp
      then show ?thesis unfolding e using True
        by (intro exI [of _ Returned]) (simp add: update_conv')
    next
      case False
      then show ?thesis unfolding e using g same_pc [of g] by (simp add: update_conv')
    qed
  qed (auto simp add: e)
qed

lemma stopping_deliverStep:
  assumes "stopping s i" shows "stopping (deliverStep c s) i"
  using deliverStep_cases [of c s]
proof
  assume "deliverStep c s = s" then show ?thesis using assms by simp
next
  assume "\<exists>f tv. map_of (forwarders s) c = Some f \<and> fpc f = Forwarding tv \<and>
      deliverStep c s = s\<lparr> forwarders := AList.update c (f\<lparr> fpc := Selecting \<rparr>) (forwarders s),
                           received := received s @ [(fout f, tv)] \<rparr>"
  then obtain f tv where f: "map_of (forwarders s) c = Some f"
    and e: "deliverStep c s = s\<lparr> forwarders := AList.update c (f\<lparr> fpc := Selecting \<rparr>) (forwarders s),
                           received := received s @ [(fout f, tv)] \<rparr>" by blast
  show ?thesis
  proof (rule stopping_pres [OF assms])
    show "\<exists>X. map_of (forwarders (deliverStep c s)) (UntypedCh i) = Some (g\<lparr> fpc := X \<rparr>) \<and>
           (X = Returned \<longrightarrow> fpc g = Returned \<or> fout g \<in> closed (deliverStep c s))"
      if g: "map_of (forwarders s) (UntypedCh i) = Some g" for g
    proof (cases "c = UntypedCh i")
      case True
      then have "g = f" using f g by simp
      then show ?thesis unfolding e using True
        by (intro exI [of _ Selecting]) (simp add: update_conv')
    next
      case False
      then show ?thesis unfolding e using g same_pc [of g] by (simp add: update_conv')
    qed
  qed (simp_all add: e)
qed

lemma stopping_step: "stopping s i \<Longrightarrow> stopping (step a s) i"
  by (cases a)
     (simp_all add: step_def stopping_subscribe stopping_publish stopping_unsub stopping_cancel
        stopping_sendStep stopping_abandonStep stopping_stopStep stopping_deliverStep)

lemma stopping_run: "stopping s i \<Longrightarrow> stopping (run as s) i"
  unfolding run_def by (induction as arbitrary: s) (simp_all add: stopping_step)

lemma stopping_closes:
  assumes "stopping s i"
  shows "crashed s \<noteq> None \<or> TypedCh i \<in> closed s \<or>
         TypedCh i \<in> closed (step (Stop (UntypedCh i)) s)"
proof -
  from assms obtain f p where f:
    "map_of (forwarders s) (UntypedCh i) = Some f" "fout f = TypedCh i"
    "fctx f = WithCancel p i" "WithCancel p i \<in> cancelled s"
    "fpc f = Returned \<longrightarrow> TypedCh i \<in> closed s"
    unfolding stopping_def by blast
  show ?thesis
  proof (cases "crashed s = None \<and> fpc f \<noteq> Returned")
    case True
    then have "TypedCh i \<in> closed (step (Stop (UntypedCh i)) s)"
      using f by (simp add: step_def stopStep_def)
    then show ?thesis by blast
  next
    case False
    then show ?thesis using f(5) by auto
  qed
qed

lemma unsub_unregisters:
  assumes w: "wf s" and f: "map_of (forwarders s) (UntypedCh i) = Some f"
  shows "\<not> registered (unsub (UnsubFn (typeKey (ftype f)) i fc) s) (UntypedCh i)"
proof
  let ?k = "typeKey (ftype f)"
  assume "registered (unsub (UnsubFn ?k i fc) s) (UntypedCh i)"
  then obtain k' m' j where a: "(k', m') \<in> set (AList.map_entry ?k (Delete i) (subscribers s))"
    "(j, UntypedCh i) \<in> set m'"
    unfolding registered_def by auto
  have d: "distinct (map fst (subscribers s))" and wr: "wf_reg s"
    using w by (simp_all add: wf_def wf_keys_def)
  from in_map_entry [OF d a(1)]
  have "(k' \<noteq> ?k \<and> (k', m') \<in> set (subscribers s)) \<or>
        (\<exists>v. (?k, v) \<in> set (subscribers s) \<and> (k', m') = (?k, Delete i v))" by simp
  then show False
  proof
    assume b: "k' \<noteq> ?k \<and> (k', m') \<in> set (subscribers s)"
    then have "(k', m') \<in> set (subscribers s)" by simp
    from wf_regD [OF wr this a(2)] f have "?k = k'" by auto
    then show False using b by simp
  next
    assume "\<exists>v. (?k, v) \<in> set (subscribers s) \<and> (k', m') = (?k, Delete i v)"
    then obtain v where v: "(?k, v) \<in> set (subscribers s)" "m' = AList.delete i v"
      by (auto simp: Delete_def)
    from a(2) v(2) in_delete [of "(j, UntypedCh i)" i v]
    have j: "(j, UntypedCh i) \<in> set v" "j \<noteq> i" by auto
    from wf_regD [OF wr v(1) j(1)] have "j = i" by simp
    then show False using j(2) by simp
  qed
qed

text \<open>
  C7: take a subscription in a well-formed state and call its \<open>unsub\<close>. Whatever
  happens afterwards (publishes included), as long as the process has not crashed the
  typed channel is closed or the forwarder's next step closes it; and a value that was not
  already on its way to the subscription when \<open>unsub\<close> was called is never received on
  the typed channel, however often it is published afterwards.
\<close>

theorem unsub_closes_and_silences:
  assumes "wf s" "map_of (forwarders s) (UntypedCh i) = Some f" "fctx f = WithCancel p i"
  shows "(crashed (run as (unsub (UnsubFn (typeKey (ftype f)) i (WithCancel p i)) s)) \<noteq> None \<or>
          TypedCh i \<in> closed (run as (unsub (UnsubFn (typeKey (ftype f)) i (WithCancel p i)) s)) \<or>
          TypedCh i \<in> closed (step (Stop (UntypedCh i))
             (run as (unsub (UnsubFn (typeKey (ftype f)) i (WithCancel p i)) s)))) \<and>
         (\<not> in_flight s (UntypedCh i) v \<and> (TypedCh i, v) \<notin> set (received s) \<longrightarrow>
          (TypedCh i, v) \<notin> set (received
             (run as (unsub (UnsubFn (typeKey (ftype f)) i (WithCancel p i)) s))))"
proof -
  let ?u = "UnsubFn (typeKey (ftype f)) i (WithCancel p i)"
  let ?s1 = "unsub ?u s"
  have wfw: "wf_fwd s" and wc: "wf_closed s" using assms(1) by (simp_all add: wf_def)
  from wf_fwd_lookup [OF wfw assms(2)]
  have i: "i < next_uuid s" "fout f = TypedCh i" by auto
  have mem: "(UntypedCh i, f) \<in> set (forwarders s)" using assms(2) by (rule map_of_SomeD)
  have ret: "fpc f = Returned \<longrightarrow> TypedCh i \<in> closed s"
    using wc mem unfolding wf_closed_def i(2) [symmetric] by blast
  have "stopping ?s1 i"
    unfolding stopping_def using i assms(2,3) ret
    by (intro conjI exI [of _ f] exI [of _ p]) simp_all
  then have "stopping (run as ?s1) i" by (rule stopping_run)
  then have a: "crashed (run as ?s1) \<noteq> None \<or> TypedCh i \<in> closed (run as ?s1) \<or>
          TypedCh i \<in> closed (step (Stop (UntypedCh i)) (run as ?s1))"
    by (rule stopping_closes)
  have b: "(TypedCh i, v) \<notin> set (received (run as ?s1))"
    if "\<not> in_flight s (UntypedCh i) v" "(TypedCh i, v) \<notin> set (received s)"
  proof -
    have "wf ?s1" using assms(1) by (rule wf_unsub)
    moreover have "\<not> registered ?s1 (UntypedCh i)"
      using assms(1,2) by (rule unsub_unregisters)
    moreover have "\<not> in_flight ?s1 (UntypedCh i) v" using that(1) by (simp add: in_flight_def)
    ultimately have "quiet ?s1 i v" using i(1) that(2) by (simp add: quiet_def)
    then have "quiet (run as ?s1) i v" by (rule quiet_run)
    then show ?thesis by (simp add: quiet_def)
  qed
  show ?thesis using a b by blast
qed

theorem unsub_closes_and_silences_witness:
  "(let s = run [Subscribe Background intT, Publish Background intT (Box intT 1)]
              (NewEventScope :: int state);
        u = UnsubFn (ZeroOf intT) 0 (WithCancel Background 0);
        s' = run [Publish Background intT (Box intT 2), Send 0, Deliver (UntypedCh 0)] (unsub u s)
    in wf s \<and> \<not> in_flight s (UntypedCh 0) (Box intT 2) \<and>
       (TypedCh 0, Box intT 2) \<notin> set (received s) \<and>
       TypedCh 0 \<in> closed (step (Stop (UntypedCh 0)) s') \<and>
       (TypedCh 0, Box intT 2) \<notin> set (received s'))"
proof -
  let ?s = "run [Subscribe Background intT, Publish Background intT (Box intT 1)]
              (NewEventScope :: int state)"
  have w: "wf ?s" by (rule wf_run [OF wf_NewEventScope])
  show ?thesis
    using w unsub_closes_and_silences [where s = ?s and i = 0 and p = Background
        and f = "\<lparr> fctx = WithCancel Background 0, fout = TypedCh 0, ftype = intT, fpc = Selecting \<rparr>"
        and v = "Box intT 2"
        and as = "[Publish Background intT (Box intT 2), Send 0, Deliver (UntypedCh 0)]", OF w]
    by (simp add: model_defs intT_def in_flight_def)
qed

section \<open>Delivery of a value that is not the nil interface\<close>

lemma assertType_hasType:
  "hasType v T \<Longrightarrow> v \<noteq> Nil \<Longrightarrow> assertType T v = Some v"
  by (cases v) (auto split: if_splits)

text \<open>
  What holds of delivery: after subscribing to a hashable type and publishing a value of
  that type other than the nil interface, the sender can hand the value to the forwarder
  and a reader then receives exactly that value on the channel the subscription returned.
\<close>

lemma subscribe_publish_delivers:
  assumes "crashed s = None" "hashable T" "hasType v T" "v \<noteq> Nil"
  shows "\<exists>n. received (run [Subscribe c T, Publish c' T v, Send n, Deliver (UntypedCh (next_uuid s))] s)
            = received s @ [(TypedCh (next_uuid s), v)] \<and>
           fst (SubscribeToScope c T s) =
             Inr (TypedCh (next_uuid s), UnsubFn (typeKey T) (next_uuid s) (WithCancel c (next_uuid s)))"
proof -
  let ?id = "next_uuid s"
  let ?s1 = "snd (SubscribeToScope c T s)"
  let ?m0 = "case map_of (subscribers s) (typeKey T) of None \<Rightarrow> [] | Some m \<Rightarrow> m"
  let ?M = "AList.update ?id (UntypedCh ?id) ?m0"
  let ?nf = "\<lparr> fctx = WithCancel c ?id, fout = TypedCh ?id, ftype = T, fpc = Selecting \<rparr> :: 'a forwarder"
  have s1: "crashed ?s1 = None" "received ?s1 = received s"
    "map_of (forwarders ?s1) (UntypedCh ?id) = Some ?nf"
    "Load (typeKey T) (subscribers ?s1) = Some ?M"
    using assms(1) by (simp_all add: subscribe_state [OF assms(2)] update_conv' Load_def)
  have "map_of ?M ?id = Some (UntypedCh ?id)" by (simp add: update_conv')
  then have ent: "(?id, UntypedCh ?id) \<in> set ?M" by (rule map_of_SomeD)
  let ?s2 = "snd (PublishToScope c' T v ?s1)"
  from publish_sender_for_entry [OF assms(2) s1(4) ent, of c' v]
  obtain n where n: "n < length (senders ?s2)"
    "senders ?s2 ! n = \<lparr> dest = UntypedCh ?id, val = v, sctx = c' \<rparr>" by blast
  have s2: "crashed ?s2 = None" "received ?s2 = received s"
    "map_of (forwarders ?s2) (UntypedCh ?id) = Some ?nf"
    using s1 by (simp_all add: publish_frame)
  have at: "assertType (ftype ?nf) v = Some v" using assms(3,4) by (simp add: assertType_hasType)
  from send_deliver [OF s2(1) n s2(3) _ at]
  have "received (step (Deliver (UntypedCh ?id)) (step (Send n) ?s2)) = received s @ [(TypedCh ?id, v)]"
    by (simp add: s2)
  moreover have "run [Subscribe c T, Publish c' T v, Send n, Deliver (UntypedCh ?id)] s
     = step (Deliver (UntypedCh ?id)) (step (Send n) ?s2)"
    using assms(1,3) s1(1) by (simp add: run_def step_def)
  ultimately show ?thesis using subscribe_result [OF assms(2), of c s] by (intro exI [of _ n]) simp
qed

end
